theory Spec2Isabelle
  imports Main "HOL-Library.Product_Lexorder"
begin

section \<open>The gold\_user\_activity\_daily pipeline\<close>

text \<open>
  A shallow embedding of \<^verbatim>\<open>airflow/dags/gold_user_activity_daily.py\<close>. Every task
  function of the DAG is a state transformer over a \<open>world\<close>: the tables of the
  analytical store, the store's clock and pending mutations, the outcomes the environment
  has in stock for the next client calls, the run's XCom records and the trace of
  everything the run did to the outside (log records, statements, sleeps). A Python
  exception is the \<open>Inl\<close> result of a transformer.
\<close>

subsection \<open>Values and their text\<close>

text \<open>
  The partition key \<^verbatim>\<open>context['ds']\<close> is a calendar date; it is kept as
  (year, month, day) and rendered as \<^verbatim>\<open>YYYY-MM-DD\<close> where Python interpolates it.
  An event timestamp is a date and the milliseconds elapsed within that day, so that
  \<^verbatim>\<open>toDate\<close> is the first projection and timestamps are ordered
  lexicographically.
\<close>

type_synonym date = "nat \<times> nat \<times> nat"
type_synonym timestamp = "date \<times> nat"

definition toDate :: "timestamp \<Rightarrow> date" where
  "toDate ts = fst ts"

definition digit :: "nat \<Rightarrow> char" where
  "digit n = ''0123456789'' ! (n mod 10)"

fun str_nat :: "nat \<Rightarrow> string" where
  "str_nat n = (if n < 10 then [digit n] else str_nat (n div 10) @ [digit n])"

declare str_nat.simps [simp del]

definition zero_pad :: "nat \<Rightarrow> string \<Rightarrow> string" where
  "zero_pad width s = replicate (width - length s) (CHR ''0'') @ s"

definition str_date :: "date \<Rightarrow> string" where
  "str_date d = (case d of (y, m, dd) \<Rightarrow>
     zero_pad 4 (str_nat y) @ ''-'' @ zero_pad 2 (str_nat m) @ ''-'' @ zero_pad 2 (str_nat dd))"

text \<open>\<^verbatim>\<open>str(datetime)\<close>: the fraction is printed, as microseconds, only when it is not zero.\<close>

definition str_timestamp :: "timestamp \<Rightarrow> string" where
  "str_timestamp ts = (case ts of (d, ms) \<Rightarrow>
     str_date d @ '' '' @ zero_pad 2 (str_nat (ms div 3600000)) @ '':''
       @ zero_pad 2 (str_nat (ms div 60000 mod 60)) @ '':''
       @ zero_pad 2 (str_nat (ms div 1000 mod 60))
       @ (if ms mod 1000 = 0 then [] else ''.'' @ zero_pad 6 (str_nat (ms mod 1000 * 1000))))"

text \<open>\<^verbatim>\<open>datetime.strptime(ds, '%Y-%m-%d').strftime('%Y%m')\<close>\<close>

definition strftime_Ym :: "date \<Rightarrow> string" where
  "strftime_Ym d = (case d of (y, m, dd) \<Rightarrow> zero_pad 4 (str_nat y) @ zero_pad 2 (str_nat m))"

definition str_bool :: "bool \<Rightarrow> string" where
  "str_bool b = (if b then ''True'' else ''False'')"

subsection \<open>Exceptions\<close>

text \<open>
  The exception classes that can leave a task: Airflow's \<^verbatim>\<open>AirflowException\<close>, the
  driver's \<^verbatim>\<open>ClickHouseError\<close>, and any other Python exception. Each carries its
  message. The exception that Python chains to one raised inside an \<^verbatim>\<open>except\<close> block
  is left out.
\<close>

datatype exn = AirflowException string | ClickHouseError string | OtherException string

datatype exn_class = AirflowException_class | ClickHouseError_class | OtherException_class

fun class_of :: "exn \<Rightarrow> exn_class" where
  "class_of (AirflowException m) = AirflowException_class"
| "class_of (ClickHouseError m) = ClickHouseError_class"
| "class_of (OtherException m) = OtherException_class"

fun str_exn :: "exn \<Rightarrow> string" where
  "str_exn (AirflowException m) = m"
| "str_exn (ClickHouseError m) = m"
| "str_exn (OtherException m) = m"

subsection \<open>Tables\<close>

text \<open>
  \<^verbatim>\<open>analytics.silver_events\<close> (alias \<^verbatim>\<open>se\<close>) and
  \<^verbatim>\<open>analytics.silver_users\<close> (alias \<^verbatim>\<open>su\<close>), with the columns the
  statements read. The display attributes are nullable, which is what
  \<^verbatim>\<open>coalesce\<close> is there for.
\<close>

record silver_event =
  se_user_id :: nat
  se_event_timestamp :: timestamp
  se_event_type :: string

record silver_user =
  su_user_id :: nat
  su_full_name :: "string option"
  su_email :: "string option"
  su_is_deleted :: nat
  su_version :: nat

text \<open>\<^verbatim>\<open>analytics.gold_user_activity\<close>, in the column order of the insert.\<close>

record gold_row =
  activity_date :: date
  user_id :: nat
  event_count :: nat
  last_event_timestamp :: timestamp
  page_view_count :: nat
  click_count :: nat
  purchase_count :: nat
  search_count :: nat
  add_to_cart_count :: nat
  login_count :: nat
  user_full_name :: string
  user_email :: string
  user_is_active :: nat
  computed_at :: nat
  version :: nat

subsection \<open>XCom records\<close>

record source_validation =
  sv_target_date :: date
  sv_event_count :: nat
  sv_unique_users :: nat
  sv_min_timestamp :: "string option"
  sv_max_timestamp :: "string option"
  sv_total_users_in_system :: nat
  sv_has_data :: bool

record aggregation_result =
  ag_target_date :: date
  ag_rows_inserted :: nat
  ag_total_events_aggregated :: nat
  ag_unique_users :: nat

record final_validation =
  fv_target_date :: date
  fv_source_unique_users :: nat
  fv_destination_rows :: nat
  fv_destination_total_events :: nat
  fv_validation_passed :: bool

text \<open>
  The run's XCom store, one slot per (task, key) the DAG pushes; \<open>None\<close> is what
  \<^verbatim>\<open>xcom_pull\<close> returns for a slot nothing was pushed to.
\<close>

record xcom =
  validation_result :: "source_validation option"
  deleted_rows :: "nat option"
  aggregation_result :: "aggregation_result option"
  final_validation :: "final_validation option"

definition no_xcom :: xcom where
  "no_xcom = \<lparr>validation_result = None, deleted_rows = None,
              aggregation_result = None, final_validation = None\<rparr>"

record task_context =
  ds :: date
  run_id :: string

subsection \<open>Configuration\<close>

record clickhouse_config =
  host :: string
  port :: nat
  username :: string
  password :: string
  database :: string
  max_execution_time :: nat
  max_memory_usage :: nat

definition CLICKHOUSE_CONFIG :: clickhouse_config where
  "CLICKHOUSE_CONFIG = \<lparr>host = ''clickhouse'', port = 8123, username = ''default'',
     password = '''', database = ''analytics'', max_execution_time = 3600,
     max_memory_usage = 10000000000\<rparr>"

subsection \<open>The world\<close>

datatype statement =
    Events_query date
  | Users_query
  | Count_query date
  | Delete_query date
  | Wait_query
  | Insert_query date
  | Verify_query date
  | Optimize_query string
  | Source_query date
  | Dest_query date

datatype level = INFO | WARNING | ERROR

datatype log_arg =
    Str string
  | Num nat
  | Day date
  | Stmt statement
  | Exn exn
  | SourceValidation source_validation
  | AggregationResult aggregation_result
  | FinalValidation final_validation

text \<open>
  What a run does to the outside, in order. A log record keeps the level, the format
  string with \<^verbatim>\<open>{}\<close> for each interpolated value, and the values.
\<close>

datatype io =
    Log level string "log_arg list"
  | Connect clickhouse_config
  | Command statement
  | Query statement
  | Sleep nat
  | Close

text \<open>
  Modelled from the spec: the analytical store itself and the declaration of the
  destination table are not in the source. Following the spec (sections 4.2, 4.3, 6 and the
  glossary) a delete is a background mutation: the rows it matches get a time at which
  they are gone and stay readable until then; the destination is read either as stored
  or through the deduplicated path, which keeps for each (activity date, user) the row with
  the highest version stamp. \<open>mutation_lag\<close> is the number of milliseconds the store
  takes to complete a mutation, \<open>clock\<close> the store's time in milliseconds, and every
  client call takes one millisecond of it. \<open>outcomes\<close> holds what the environment
  answers to the coming client calls: \<open>None\<close> lets the call through, \<open>Some e\<close>
  makes the driver raise \<open>e\<close>; an exhausted list lets every call through.
\<close>

record world =
  silver_events :: "silver_event list"
  silver_users :: "silver_user list"
  v_silver_users_all :: "silver_user list"
  gold_user_activity :: "(gold_row \<times> nat option) list"
  mutations :: "nat list"
  mutation_lag :: nat
  clock :: nat
  outcomes :: "exn option list"
  ti :: xcom
  trace :: "io list"

type_synonym 'a task = "world \<Rightarrow> (exn + 'a) \<times> world"

definition returns :: "'a \<Rightarrow> 'a task" where
  "returns x w = (Inr x, w)"

definition raise :: "exn \<Rightarrow> 'a task" where
  "raise e w = (Inl e, w)"

text \<open>Sequencing: the second statement runs only if the first did not raise.\<close>

definition andThen :: "'a task \<Rightarrow> ('a \<Rightarrow> 'b task) \<Rightarrow> 'b task" where
  "andThen m f w = (case m w of (Inl e, w') \<Rightarrow> (Inl e, w') | (Inr x, w') \<Rightarrow> f x w')"

definition try_except :: "'a task \<Rightarrow> (exn \<Rightarrow> 'a task) \<Rightarrow> 'a task" where
  "try_except body handler w =
     (case body w of (Inl e, w') \<Rightarrow> handler e w' | (Inr x, w') \<Rightarrow> (Inr x, w'))"

definition logger :: "level \<Rightarrow> string \<Rightarrow> log_arg list \<Rightarrow> unit task" where
  "logger lvl fmt args w = (Inr (), w\<lparr>trace := trace w @ [Log lvl fmt args]\<rparr>)"

definition time_sleep :: "nat \<Rightarrow> unit task" where
  "time_sleep secs w =
     (Inr (), w\<lparr>clock := clock w + 1000 * secs, trace := trace w @ [Sleep secs]\<rparr>)"

definition xcom_push :: "(xcom \<Rightarrow> xcom) \<Rightarrow> unit task" where
  "xcom_push put w = (Inr (), w\<lparr>ti := put (ti w)\<rparr>)"

subsection \<open>The client\<close>

definition next_outcome :: "world \<Rightarrow> exn option" where
  "next_outcome w = (case outcomes w of [] \<Rightarrow> None | out # rest \<Rightarrow> out)"

text \<open>A client call is recorded, uses up its outcome and takes a millisecond.\<close>

definition called :: "io \<Rightarrow> world \<Rightarrow> world" where
  "called ev w =
     w\<lparr>outcomes := tl (outcomes w), clock := clock w + 1, trace := trace w @ [ev]\<rparr>"

type_synonym command = "statement \<times> (world \<Rightarrow> world)"
type_synonym 'r query = "statement \<times> (world \<Rightarrow> 'r list)"

text \<open>
  \<^verbatim>\<open>clickhouse_connect.get_client\<close>, \<^verbatim>\<open>client.command\<close>,
  \<^verbatim>\<open>client.query\<close> and \<^verbatim>\<open>client.close\<close>. A statement that fails leaves
  the tables as they were.
\<close>

definition get_client :: "clickhouse_config \<Rightarrow> unit task" where
  "get_client cfg w =
     (case next_outcome w of
        Some e \<Rightarrow> (Inl e, called (Connect cfg) w)
      | None \<Rightarrow> (Inr (), called (Connect cfg) w))"

definition client_command :: "command \<Rightarrow> unit task" where
  "client_command cmd w =
     (case next_outcome w of
        Some e \<Rightarrow> (Inl e, called (Command (fst cmd)) w)
      | None \<Rightarrow> (Inr (), called (Command (fst cmd)) (snd cmd w)))"

definition client_query :: "'r query \<Rightarrow> 'r list task" where
  "client_query qry w =
     (case next_outcome w of
        Some e \<Rightarrow> (Inl e, called (Query (fst qry)) w)
      | None \<Rightarrow> (Inr (snd qry w), called (Query (fst qry)) w))"

definition client_close :: "unit task" where
  "client_close w = (Inr (), w\<lparr>trace := trace w @ [Close]\<rparr>)"

definition get_clickhouse_client :: "unit task" where
  "get_clickhouse_client =
     try_except
       (andThen (get_client CLICKHOUSE_CONFIG) (\<lambda>client.
        andThen (logger INFO ''Successfully connected to ClickHouse'' []) (\<lambda>_.
        returns client)))
       (\<lambda>e.
        andThen (logger ERROR ''Failed to connect to ClickHouse: {}'' [Exn e]) (\<lambda>_.
        raise (AirflowException (''ClickHouse connection failed: '' @ str_exn e))))"

text \<open>\<^verbatim>\<open>except ClickHouseError as e\<close>: any other exception passes through.\<close>

definition except_ClickHouseError :: "exn \<Rightarrow> 'a task" where
  "except_ClickHouseError e =
     (case e of
        ClickHouseError m \<Rightarrow>
          andThen (logger ERROR ''ClickHouse query failed: {}'' [Exn e]) (\<lambda>_.
          raise (AirflowException (''Query execution failed: '' @ str_exn e)))
      | _ \<Rightarrow> raise e)"

definition execute_query :: "command \<Rightarrow> unit task" where
  "execute_query query =
     try_except
       (andThen (logger INFO ''Executing query: {}...'' [Stmt (fst query)]) (\<lambda>_.
        andThen (client_command query) (\<lambda>_.
        logger INFO ''Query executed successfully'' [])))
       except_ClickHouseError"

definition execute_query_with_result :: "'r query \<Rightarrow> 'r list task" where
  "execute_query_with_result query =
     try_except
       (andThen (logger INFO ''Executing query with results: {}...'' [Stmt (fst query)]) (\<lambda>_.
        andThen (client_query query) (\<lambda>result.
        andThen (logger INFO ''Query returned {} rows'' [Num (length result)]) (\<lambda>_.
        returns result))))
       except_ClickHouseError"

subsection \<open>The statements\<close>

text \<open>Aggregate functions of the store, over the rows of a group.\<close>

definition uniq :: "'a list \<Rightarrow> nat" where
  "uniq xs = length (remdups xs)"

definition countIf :: "('a \<Rightarrow> bool) \<Rightarrow> 'a list \<Rightarrow> nat" where
  "countIf p xs = length (filter p xs)"

definition min_of :: "'a::linorder list \<Rightarrow> 'a option" where
  "min_of xs = (case xs of [] \<Rightarrow> None | y # ys \<Rightarrow> Some (fold min ys y))"

definition max_of :: "'a::linorder list \<Rightarrow> 'a option" where
  "max_of xs = (case xs of [] \<Rightarrow> None | y # ys \<Rightarrow> Some (fold max ys y))"

definition coalesce :: "'a option \<Rightarrow> 'a \<Rightarrow> 'a" where
  "coalesce x dflt = (case x of None \<Rightarrow> dflt | Some v \<Rightarrow> v)"

text \<open>
  \<^verbatim>\<open>argMax(arg, val)\<close> skips the rows whose \<open>arg\<close> is null and is null when none
  is left; of several rows with the greatest \<open>val\<close> the first one is taken.
\<close>

fun arg_max_from :: "'a \<times> nat \<Rightarrow> ('a \<times> nat) list \<Rightarrow> 'a" where
  "arg_max_from best [] = fst best"
| "arg_max_from best (x # xs) = arg_max_from (if snd best < snd x then x else best) xs"

definition argMax :: "('a option \<times> nat) list \<Rightarrow> 'a option" where
  "argMax rows =
     (case concat (map (\<lambda>(arg, val). case arg of None \<Rightarrow> [] | Some a \<Rightarrow> [(a, val)]) rows) of
        [] \<Rightarrow> None
      | x # xs \<Rightarrow> Some (arg_max_from x xs))"

text \<open>The rows of the destination that a read at time \<open>now\<close> sees.\<close>

definition readable :: "nat \<Rightarrow> (gold_row \<times> nat option) list \<Rightarrow> gold_row list" where
  "readable now stored =
     map fst (filter (\<lambda>s. case snd s of None \<Rightarrow> True | Some t \<Rightarrow> now < t) stored)"

text \<open>
  The deduplicated read path (\<^verbatim>\<open>FINAL\<close>): for each sorting key the row with the
  highest version, the one inserted last among equals.
\<close>

definition sorting_key :: "gold_row \<Rightarrow> date \<times> nat" where
  "sorting_key r = (activity_date r, user_id r)"

fun latest :: "gold_row \<Rightarrow> gold_row list \<Rightarrow> gold_row" where
  "latest best [] = best"
| "latest best (r # rs) = latest (if version best \<le> version r then r else best) rs"

definition final :: "gold_row list \<Rightarrow> gold_row list" where
  "final rows =
     concat (map (\<lambda>k. case filter (\<lambda>r. sorting_key r = k) rows of
                        [] \<Rightarrow> []
                      | r # rs \<Rightarrow> [latest r rs])
                 (remdups (map sorting_key rows)))"

definition on_date :: "date \<Rightarrow> gold_row list \<Rightarrow> gold_row list" where
  "on_date d rows = filter (\<lambda>r. activity_date r = d) rows"

definition events_on :: "date \<Rightarrow> silver_event list \<Rightarrow> silver_event list" where
  "events_on d ses = filter (\<lambda>se. toDate (se_event_timestamp se) = d) ses"

definition events_query ::
  "date \<Rightarrow> (nat \<times> nat \<times> timestamp option \<times> timestamp option) query" where
  "events_query target_date = (Events_query target_date, \<lambda>w.
     (let es = events_on target_date (silver_events w) in
      [(length es, uniq (map se_user_id es),
        min_of (map se_event_timestamp es), max_of (map se_event_timestamp es))]))"

definition users_query :: "nat query" where
  "users_query = (Users_query, \<lambda>w. [length (v_silver_users_all w)])"

definition count_query :: "date \<Rightarrow> nat query" where
  "count_query target_date = (Count_query target_date, \<lambda>w.
     [length (on_date target_date (readable (clock w) (gold_user_activity w)))])"

text \<open>
  \<^verbatim>\<open>ALTER TABLE ... DELETE WHERE activity_date = d\<close>: a mutation over the rows stored
  when it is issued. Rows inserted later are not its business.
\<close>

definition doom :: "date \<Rightarrow> nat \<Rightarrow> gold_row \<times> nat option \<Rightarrow> gold_row \<times> nat option" where
  "doom d t s = (if activity_date (fst s) = d \<and> snd s = None then (fst s, Some t) else s)"

definition delete_query :: "date \<Rightarrow> command" where
  "delete_query target_date = (Delete_query target_date, \<lambda>w.
     w\<lparr>gold_user_activity :=
          map (doom target_date (clock w + mutation_lag w)) (gold_user_activity w),
        mutations := mutations w @ [clock w + mutation_lag w]\<rparr>)"

definition wait_query :: "nat query" where
  "wait_query = (Wait_query, \<lambda>w.
     [length (filter (\<lambda>done_at. clock w < done_at) (mutations w))])"

text \<open>The left join: an event without a dimension row is joined to a row of defaults.\<close>

definition no_match :: silver_user where
  "no_match = \<lparr>su_user_id = 0, su_full_name = None, su_email = None,
                su_is_deleted = 0, su_version = 0\<rparr>"

definition left_join ::
  "silver_event list \<Rightarrow> silver_user list \<Rightarrow> (silver_event \<times> silver_user) list" where
  "left_join ses sus =
     concat (map (\<lambda>se. case filter (\<lambda>su. se_user_id se = su_user_id su) sus of
                          [] \<Rightarrow> [(se, no_match)]
                        | m # ms \<Rightarrow> map (\<lambda>su. (se, su)) (m # ms)) ses)"

definition group_key :: "silver_event \<times> silver_user \<Rightarrow> date \<times> nat" where
  "group_key j = (toDate (se_event_timestamp (fst j)), se_user_id (fst j))"

definition count_type :: "string \<Rightarrow> (silver_event \<times> silver_user) list \<Rightarrow> nat" where
  "count_type t g = countIf (\<lambda>j. se_event_type (fst j) = t) g"

definition aggregate ::
  "nat \<Rightarrow> date \<times> nat \<Rightarrow> (silver_event \<times> silver_user) list \<Rightarrow> gold_row" where
  "aggregate now k g =
     \<lparr>activity_date = fst k,
      user_id = snd k,
      event_count = length g,
      last_event_timestamp =
        coalesce (max_of (map (\<lambda>j. se_event_timestamp (fst j)) g)) ((0, 0, 0), 0),
      page_view_count = count_type ''page_view'' g,
      click_count = count_type ''click'' g,
      purchase_count = count_type ''purchase'' g,
      search_count = count_type ''search'' g,
      add_to_cart_count = count_type ''add_to_cart'' g,
      login_count = count_type ''login'' g,
      user_full_name =
        coalesce (argMax (map (\<lambda>j. (su_full_name (snd j), su_version (snd j))) g)) '''',
      user_email =
        coalesce (argMax (map (\<lambda>j. (su_email (snd j), su_version (snd j))) g)) '''',
      user_is_active =
        (if argMax (map (\<lambda>j. (Some (su_is_deleted (snd j)), su_version (snd j))) g) = Some 0
         then 1 else 0),
      computed_at = now,
      version = now\<rparr>"

definition insert_select ::
  "date \<Rightarrow> silver_event list \<Rightarrow> silver_user list \<Rightarrow> nat \<Rightarrow> gold_row list" where
  "insert_select target_date ses sus now =
     (let joined = left_join (events_on target_date ses) sus in
      filter (\<lambda>r. event_count r > 0)
        (map (\<lambda>k. aggregate now k (filter (\<lambda>j. group_key j = k) joined))
             (remdups (map group_key joined))))"

definition insert_query :: "date \<Rightarrow> command" where
  "insert_query target_date = (Insert_query target_date, \<lambda>w.
     w\<lparr>gold_user_activity :=
          gold_user_activity w
          @ map (\<lambda>r. (r, None))
              (insert_select target_date (silver_events w) (silver_users w) (clock w))\<rparr>)"

definition verify_query :: "date \<Rightarrow> (nat \<times> nat \<times> nat) query" where
  "verify_query target_date = (Verify_query target_date, \<lambda>w.
     (let rows = on_date target_date (readable (clock w) (gold_user_activity w)) in
      [(length rows, sum_list (map event_count rows), uniq (map user_id rows))]))"

text \<open>
  \<^verbatim>\<open>OPTIMIZE TABLE ... PARTITION 'YYYYMM' FINAL\<close>: the rows of that month that no
  mutation is pending on are merged into one part and deduplicated.
\<close>

definition in_partition :: "string \<Rightarrow> gold_row \<times> nat option \<Rightarrow> bool" where
  "in_partition p s = (strftime_Ym (activity_date (fst s)) = p \<and> snd s = None)"

definition optimize_query :: "string \<Rightarrow> command" where
  "optimize_query part = (Optimize_query part, \<lambda>w.
     w\<lparr>gold_user_activity :=
          filter (\<lambda>s. \<not> in_partition part s) (gold_user_activity w)
          @ map (\<lambda>r. (r, None))
              (final (map fst (filter (in_partition part) (gold_user_activity w))))\<rparr>)"

definition source_query :: "date \<Rightarrow> nat query" where
  "source_query target_date = (Source_query target_date, \<lambda>w.
     [uniq (map se_user_id (events_on target_date (silver_events w)))])"

definition dest_query :: "date \<Rightarrow> (nat \<times> nat) query" where
  "dest_query target_date = (Dest_query target_date, \<lambda>w.
     (let rows = on_date target_date (final (readable (clock w) (gold_user_activity w))) in
      [(length rows, sum_list (map event_count rows))]))"

subsection \<open>Task functions\<close>

text \<open>Reading the first row of a result, with the default the source gives for no rows.\<close>

definition first_row_or :: "'r \<Rightarrow> 'r list \<Rightarrow> 'r" where
  "first_row_or dflt result = (case result of [] \<Rightarrow> dflt | row # rest \<Rightarrow> row)"

definition validate_source_data :: "task_context \<Rightarrow> source_validation task" where
  "validate_source_data context =
     (let execution_date = ds context in
      andThen (logger INFO ''Validating source data for date: {}'' [Day execution_date]) (\<lambda>_.
      andThen get_clickhouse_client (\<lambda>client.
      andThen (execute_query_with_result (events_query execution_date)) (\<lambda>events_result.
      case first_row_or (0, 0, None, None) events_result of
        (event_count', unique_users, min_ts, max_ts) \<Rightarrow>
      andThen (execute_query_with_result users_query) (\<lambda>users_result.
      let user_count = first_row_or 0 users_result in
      andThen client_close (\<lambda>_.
      let validation_result =
            \<lparr>sv_target_date = execution_date,
             sv_event_count = event_count',
             sv_unique_users = unique_users,
             sv_min_timestamp = map_option str_timestamp min_ts,
             sv_max_timestamp = map_option str_timestamp max_ts,
             sv_total_users_in_system = user_count,
             sv_has_data = (event_count' > 0)\<rparr> in
      andThen (logger INFO ''Validation result: {}'' [SourceValidation validation_result]) (\<lambda>_.
      andThen (if event_count' = 0
               then logger WARNING
                      ''No events found for date {}. DAG will continue but may produce empty results.''
                      [Day execution_date]
               else returns ()) (\<lambda>_.
      andThen (xcom_push (\<lambda>x. x\<lparr>validation_result := Some validation_result\<rparr>)) (\<lambda>_.
      returns validation_result)))))))))"

text \<open>\<^verbatim>\<open>for _ in range(n)\<close>: poll, leave the loop when nothing is pending, else sleep a
  second and go round again.\<close>

primrec wait_for_mutation :: "nat \<Rightarrow> unit task" where
  "wait_for_mutation 0 = returns ()"
| "wait_for_mutation (Suc n) =
     andThen (execute_query_with_result wait_query) (\<lambda>result.
     let pending = first_row_or 0 result in
     if pending = 0 then returns ()
     else andThen (time_sleep 1) (\<lambda>_. wait_for_mutation n))"

definition delete_existing_partition :: "task_context \<Rightarrow> unit task" where
  "delete_existing_partition context =
     (let execution_date = ds context in
      andThen (logger INFO ''Deleting existing partition for date: {}'' [Day execution_date]) (\<lambda>_.
      andThen get_clickhouse_client (\<lambda>client.
      andThen (execute_query_with_result (count_query execution_date)) (\<lambda>count_result.
      let existing_count = first_row_or 0 count_result in
      andThen (logger INFO ''Found {} existing rows for date {}''
                 [Num existing_count, Day execution_date]) (\<lambda>_.
      andThen (if existing_count > 0
               then andThen (execute_query (delete_query execution_date)) (\<lambda>_.
                    andThen (logger INFO ''Deleted {} rows for date {}''
                               [Num existing_count, Day execution_date]) (\<lambda>_.
                    wait_for_mutation 30))
               else logger INFO ''No existing data to delete'' []) (\<lambda>_.
      andThen client_close (\<lambda>_.
      xcom_push (\<lambda>x. x\<lparr>deleted_rows := Some existing_count\<rparr>))))))))"

definition compute_aggregations :: "task_context \<Rightarrow> aggregation_result task" where
  "compute_aggregations context =
     (let execution_date = ds context in
      andThen (logger INFO ''Computing aggregations for date: {}'' [Day execution_date]) (\<lambda>_.
      andThen get_clickhouse_client (\<lambda>client.
      andThen (execute_query (insert_query execution_date)) (\<lambda>_.
      andThen (execute_query_with_result (verify_query execution_date)) (\<lambda>verify_result.
      case first_row_or (0, 0, 0) verify_result of
        (row_count, total_events, unique_users) \<Rightarrow>
      andThen client_close (\<lambda>_.
      let aggregation_result =
            \<lparr>ag_target_date = execution_date,
             ag_rows_inserted = row_count,
             ag_total_events_aggregated = total_events,
             ag_unique_users = unique_users\<rparr> in
      andThen (logger INFO ''Aggregation complete: {}'' [AggregationResult aggregation_result]) (\<lambda>_.
      andThen (xcom_push (\<lambda>x. x\<lparr>aggregation_result := Some aggregation_result\<rparr>)) (\<lambda>_.
      returns aggregation_result))))))))"

text \<open>\<^verbatim>\<open>except Exception as e\<close> around the statement only: the connection is made
  outside the \<^verbatim>\<open>try\<close>.\<close>

definition optimize_table :: "task_context \<Rightarrow> unit task" where
  "optimize_table context =
     (let execution_date = ds context in
      andThen (logger INFO ''Optimizing gold_user_activity table for date: {}''
                 [Day execution_date]) (\<lambda>_.
      andThen get_clickhouse_client (\<lambda>client.
      let part = strftime_Ym execution_date in
      andThen (try_except
                 (andThen (execute_query (optimize_query part)) (\<lambda>_.
                  logger INFO ''Successfully optimized partition {}'' [Str part]))
                 (\<lambda>e. logger WARNING ''Optimization warning (non-fatal): {}'' [Exn e])) (\<lambda>_.
      client_close))))"

definition validate_results :: "task_context \<Rightarrow> final_validation task" where
  "validate_results context =
     (let execution_date = ds context in
      andThen (logger INFO ''Validating results for date: {}'' [Day execution_date]) (\<lambda>_.
      andThen get_clickhouse_client (\<lambda>client.
      andThen (execute_query_with_result (source_query execution_date)) (\<lambda>source_result.
      let source_users = first_row_or 0 source_result in
      andThen (execute_query_with_result (dest_query execution_date)) (\<lambda>dest_result.
      case first_row_or (0, 0) dest_result of (dest_rows, dest_events) \<Rightarrow>
      andThen client_close (\<lambda>_.
      let validation_passed =
            ((source_users = 0 \<and> dest_rows = 0) \<or> (source_users > 0 \<and> dest_rows > 0));
          validation_result =
            \<lparr>fv_target_date = execution_date,
             fv_source_unique_users = source_users,
             fv_destination_rows = dest_rows,
             fv_destination_total_events = dest_events,
             fv_validation_passed = validation_passed\<rparr> in
      andThen (logger INFO ''Validation result: {}'' [FinalValidation validation_result]) (\<lambda>_.
      andThen (if \<not> validation_passed
               then raise (AirflowException
                      (''Validation failed: Source had '' @ str_nat source_users
                       @ '' users but destination has '' @ str_nat dest_rows @ '' rows''))
               else returns ()) (\<lambda>_.
      andThen (xcom_push (\<lambda>x. x\<lparr>final_validation := Some validation_result\<rparr>)) (\<lambda>_.
      returns validation_result)))))))))"

subsection \<open>The report\<close>

text \<open>\<^verbatim>\<open>(xcom_pull(...) or {}).get(key, default)\<close> on a record that may be missing.\<close>

definition get :: "'r option \<Rightarrow> ('r \<Rightarrow> string) \<Rightarrow> string \<Rightarrow> string" where
  "get record field dflt = (case record of None \<Rightarrow> dflt | Some r \<Rightarrow> field r)"

definition str_optional :: "string option \<Rightarrow> string" where
  "str_optional v = (case v of None \<Rightarrow> ''None'' | Some s \<Rightarrow> s)"

definition line :: "string \<Rightarrow> string" where
  "line s = s @ [CHR 0x0A]"

text \<open>The values interpolated into the report, each already as text.\<close>

record report_fields =
  rf_execution_date :: string
  rf_run_id :: string
  rf_events_found :: string
  rf_unique_users :: string
  rf_min_timestamp :: string
  rf_max_timestamp :: string
  rf_rows_deleted :: string
  rf_rows_inserted :: string
  rf_total_events :: string
  rf_aggregated_users :: string
  rf_validation_passed :: string

definition report_text :: "report_fields \<Rightarrow> string" where
  "report_text f =
     concat (map line
       ['''',
        replicate 80 (CHR ''=''),
        ''GOLD USER ACTIVITY DAILY - EXECUTION REPORT'',
        replicate 80 (CHR ''=''),
        ''Execution Date: '' @ rf_execution_date f,
        ''Run ID: '' @ rf_run_id f,
        replicate 80 (CHR ''-''),
        ''SOURCE DATA VALIDATION:'',
        ''  - Events Found: '' @ rf_events_found f,
        ''  - Unique Users: '' @ rf_unique_users f,
        ''  - Time Range: '' @ rf_min_timestamp f @ '' to '' @ rf_max_timestamp f,
        replicate 80 (CHR ''-''),
        ''PARTITION CLEANUP:'',
        ''  - Rows Deleted: '' @ rf_rows_deleted f,
        replicate 80 (CHR ''-''),
        ''AGGREGATION RESULTS:'',
        ''  - Rows Inserted: '' @ rf_rows_inserted f,
        ''  - Total Events Aggregated: '' @ rf_total_events f,
        ''  - Unique Users: '' @ rf_aggregated_users f,
        replicate 80 (CHR ''-''),
        ''FINAL VALIDATION:'',
        ''  - Validation Passed: '' @ rf_validation_passed f,
        replicate 80 (CHR ''='')])
     @ ''    ''"

definition generate_report :: "task_context \<Rightarrow> string task" where
  "generate_report context =
     (\<lambda>w.
      (let execution_date = ds context;
           validation = validation_result (ti w);
           deleted = (case deleted_rows (ti w) of None \<Rightarrow> 0 | Some n \<Rightarrow> n);
           aggregation = aggregation_result (ti w);
           final_record = final_validation (ti w);
           report = report_text
             \<lparr>rf_execution_date = str_date execution_date,
              rf_run_id = run_id context,
              rf_events_found = get validation (\<lambda>v. str_nat (sv_event_count v)) ''N/A'',
              rf_unique_users = get validation (\<lambda>v. str_nat (sv_unique_users v)) ''N/A'',
              rf_min_timestamp =
                get validation (\<lambda>v. str_optional (sv_min_timestamp v)) ''N/A'',
              rf_max_timestamp =
                get validation (\<lambda>v. str_optional (sv_max_timestamp v)) ''N/A'',
              rf_rows_deleted = str_nat deleted,
              rf_rows_inserted = get aggregation (\<lambda>a. str_nat (ag_rows_inserted a)) ''N/A'',
              rf_total_events =
                get aggregation (\<lambda>a. str_nat (ag_total_events_aggregated a)) ''N/A'',
              rf_aggregated_users = get aggregation (\<lambda>a. str_nat (ag_unique_users a)) ''N/A'',
              rf_validation_passed =
                get final_record (\<lambda>f. str_bool (fv_validation_passed f)) ''N/A''\<rparr>
       in andThen (logger INFO ''{}'' [Str report]) (\<lambda>_. returns report)) w)"

subsection \<open>The DAG\<close>

text \<open>
  \<^verbatim>\<open>start >> validate_task >> delete_task >> compute_task >> optimize_task >>
  validate_results_task >> report_task >> end\<close>: one attempt of each task, in this order,
  a task running only if the one before it succeeded. The run starts with no XCom record.
\<close>

definition gold_user_activity_daily :: "task_context \<Rightarrow> string task" where
  "gold_user_activity_daily context =
     andThen (xcom_push (\<lambda>_. no_xcom)) (\<lambda>_.
     andThen (validate_source_data context) (\<lambda>_.
     andThen (delete_existing_partition context) (\<lambda>_.
     andThen (compute_aggregations context) (\<lambda>_.
     andThen (optimize_table context) (\<lambda>_.
     andThen (validate_results context) (\<lambda>_.
     generate_report context))))))"

section \<open>Notions the properties are stated with\<close>

subsection \<open>Worlds after a step\<close>

definition logged :: "io list \<Rightarrow> world \<Rightarrow> world" where
  "logged evs w = w\<lparr>trace := trace w @ evs\<rparr>"

text \<open>The outcome in stock for the client call after the next \<open>n\<close> ones.\<close>

definition outcome_at :: "nat \<Rightarrow> world \<Rightarrow> exn option" where
  "outcome_at n w = (case drop n (outcomes w) of [] \<Rightarrow> None | out # rest \<Rightarrow> out)"

text \<open>The environment lets the next \<open>n\<close> client calls through.\<close>

definition answered :: "nat \<Rightarrow> world \<Rightarrow> bool" where
  "answered n w = list_all (\<lambda>out. out = None) (take n (outcomes w))"

text \<open>What \<^verbatim>\<open>execute_query\<close> and \<^verbatim>\<open>execute_query_with_result\<close> raise and log
  when the driver raises \<open>e\<close>.\<close>

definition wrapped :: "exn \<Rightarrow> exn" where
  "wrapped e =
     (case e of
        ClickHouseError m \<Rightarrow> AirflowException (''Query execution failed: '' @ m)
      | _ \<Rightarrow> e)"

definition wrap_log :: "exn \<Rightarrow> io list" where
  "wrap_log e =
     (case e of
        ClickHouseError m \<Rightarrow> [Log ERROR ''ClickHouse query failed: {}'' [Exn e]]
      | _ \<Rightarrow> [])"

subsection \<open>Reconciliation\<close>

text \<open>The invariant in the words of the specification.\<close>

definition reconciliation_invariant :: "nat \<Rightarrow> nat \<Rightarrow> bool" where
  "reconciliation_invariant source_count dest_count \<longleftrightarrow>
     (source_count = 0 \<and> dest_count = 0) \<or> (source_count > 0 \<and> dest_count > 0)"

definition source_distinct_users :: "date \<Rightarrow> world \<Rightarrow> nat" where
  "source_distinct_users d w = uniq (map se_user_id (events_on d (silver_events w)))"

text \<open>The number of rows the deduplicated read path shows for a date at time \<open>now\<close>.\<close>

definition dest_rows :: "date \<Rightarrow> nat \<Rightarrow> world \<Rightarrow> nat" where
  "dest_rows d now w = length (on_date d (final (readable now (gold_user_activity w))))"

definition validation_failed :: "nat \<Rightarrow> nat \<Rightarrow> exn" where
  "validation_failed source_users dest =
     AirflowException
       (''Validation failed: Source had '' @ str_nat source_users
        @ '' users but destination has '' @ str_nat dest @ '' rows'')"

subsection \<open>Destination rows\<close>

text \<open>The rows no delete is pending on: what is left of the table once the mutations
  issued so far have completed.\<close>

definition settled :: "(gold_row \<times> nat option) list \<Rightarrow> gold_row list" where
  "settled stored = map fst (filter (\<lambda>s. snd s = None) stored)"

text \<open>A row without its two stamps, which differ from run to run.\<close>

definition unstamped :: "gold_row \<Rightarrow> gold_row" where
  "unstamped r = r\<lparr>computed_at := 0, version := 0\<rparr>"

text \<open>The six categories of the insert, and their counts added up.\<close>

definition categories :: "string list" where
  "categories = [''page_view'', ''click'', ''purchase'', ''search'', ''add_to_cart'', ''login'']"

definition category_total :: "gold_row \<Rightarrow> nat" where
  "category_total r =
     page_view_count r + click_count r + purchase_count r + search_count r
     + add_to_cart_count r + login_count r"

text \<open>The events of a user on a date, and the user's rows in the dimension table.\<close>

definition events_of :: "nat \<Rightarrow> date \<Rightarrow> world \<Rightarrow> silver_event list" where
  "events_of u d w = filter (\<lambda>se. se_user_id se = u) (events_on d (silver_events w))"

definition dimension_rows :: "nat \<Rightarrow> world \<Rightarrow> silver_user list" where
  "dimension_rows u w = filter (\<lambda>su. su_user_id su = u) (silver_users w)"

text \<open>Every stored row was stamped before the present time of the store.\<close>

definition stamped_in_past :: "world \<Rightarrow> bool" where
  "stamped_in_past w = list_all (\<lambda>s. version (fst s) < clock w) (gold_user_activity w)"

subsection \<open>Traces\<close>

text \<open>The polls of the mutation status and the sleeps, in the order of the trace.\<close>

definition pacing :: "io list \<Rightarrow> io list" where
  "pacing tr =
     filter (\<lambda>ev. case ev of Query st \<Rightarrow> st = Wait_query | Sleep secs \<Rightarrow> True | _ \<Rightarrow> False) tr"

text \<open>What a poll that finds a mutation pending leaves in the trace.\<close>

definition busy_round :: "io list" where
  "busy_round =
     [Log INFO ''Executing query with results: {}...'' [Stmt Wait_query],
      Query Wait_query,
      Log INFO ''Query returned {} rows'' [Num 1],
      Sleep 1]"

definition warnings :: "io list \<Rightarrow> (string \<times> log_arg list) list" where
  "warnings tr =
     concat (map (\<lambda>ev. case ev of Log WARNING fmt args \<Rightarrow> [(fmt, args)] | _ \<Rightarrow> []) tr)"

text \<open>The number of mutations the store has not completed at time \<open>now\<close>.\<close>

definition pending_at :: "nat \<Rightarrow> world \<Rightarrow> nat" where
  "pending_at now w = length (filter (\<lambda>done_at. now < done_at) (mutations w))"

subsection \<open>Example data\<close>

definition ex_date :: date where
  "ex_date = (2024, 1, 15)"

definition ex_context :: task_context where
  "ex_context = \<lparr>ds = ex_date, run_id = ''scheduled__2024-01-16''\<rparr>"

definition ex_row :: "date \<Rightarrow> nat \<Rightarrow> nat \<Rightarrow> gold_row" where
  "ex_row d u v =
     \<lparr>activity_date = d, user_id = u, event_count = 1,
      last_event_timestamp = (d, 0), page_view_count = 1, click_count = 0,
      purchase_count = 0, search_count = 0, add_to_cart_count = 0, login_count = 0,
      user_full_name = '''', user_email = '''', user_is_active = 1,
      computed_at = v, version = v\<rparr>"

definition ex_world :: world where
  "ex_world =
     \<lparr>silver_events =
        [\<lparr>se_user_id = 1, se_event_timestamp = (ex_date, 1000), se_event_type = ''page_view''\<rparr>,
         \<lparr>se_user_id = 1, se_event_timestamp = (ex_date, 2500), se_event_type = ''click''\<rparr>,
         \<lparr>se_user_id = 2, se_event_timestamp = (ex_date, 3000), se_event_type = ''purchase''\<rparr>],
      silver_users =
        [\<lparr>su_user_id = 1, su_full_name = Some ''Ann'', su_email = Some ''ann@example.com'',
          su_is_deleted = 0, su_version = 1\<rparr>],
      v_silver_users_all = [],
      gold_user_activity = [],
      mutations = [], mutation_lag = 0, clock = 100, outcomes = [], ti = no_xcom, trace = []\<rparr>"

text \<open>No event on the date, and a row left in the destination.\<close>

definition ex_mismatch :: world where
  "ex_mismatch =
     ex_world\<lparr>silver_events := [], gold_user_activity := [(ex_row ex_date 7 50, None)]\<rparr>"

text \<open>The store rejects the first query after the connection.\<close>

definition ex_rejecting :: world where
  "ex_rejecting = ex_world\<lparr>outcomes := [None, Some (ClickHouseError ''boom'')]\<rparr>"

subsection \<open>The row shown for a key\<close>

definition rows_of :: "date \<times> nat \<Rightarrow> gold_row list \<Rightarrow> gold_row list" where
  "rows_of k rows = filter (\<lambda>r. sorting_key r = k) rows"

definition shown :: "date \<times> nat \<Rightarrow> gold_row list \<Rightarrow> gold_row" where
  "shown k rows = latest (hd (rows_of k rows)) (tl (rows_of k rows))"

subsection \<open>What a task leaves as it is\<close>

definition asleep :: "nat \<Rightarrow> world \<Rightarrow> world" where
  "asleep secs w = w\<lparr>clock := clock w + 1000 * secs, trace := trace w @ [Sleep secs]\<rparr>"

text \<open>A relation between the world before and the world after holds of a task whatever
  the task returns or raises.\<close>

definition keeps :: "(world \<Rightarrow> world \<Rightarrow> bool) \<Rightarrow> 'a task \<Rightarrow> bool" where
  "keeps R m \<longleftrightarrow> (\<forall>w. R w (snd (m w)))"

text \<open>Relations that compose along a task and that logging, a client call without
  effect on the tables, a sleep and an XCom push respect.\<close>

definition step_closed :: "(world \<Rightarrow> world \<Rightarrow> bool) \<Rightarrow> bool" where
  "step_closed R \<longleftrightarrow>
     (\<forall>w. R w w) \<and> (\<forall>a b c. R a b \<longrightarrow> R b c \<longrightarrow> R a c)
     \<and> (\<forall>w evs. R w (logged evs w)) \<and> (\<forall>w ev. R w (called ev w))
     \<and> (\<forall>w secs. R w (asleep secs w)) \<and> (\<forall>w x. R w (w\<lparr>ti := x\<rparr>))"

definition same_tables :: "world \<Rightarrow> world \<Rightarrow> bool" where
  "same_tables w w' \<longleftrightarrow>
     silver_events w' = silver_events w \<and> silver_users w' = silver_users w
     \<and> v_silver_users_all w' = v_silver_users_all w \<and> mutation_lag w' = mutation_lag w
     \<and> clock w \<le> clock w'"

definition same_destination :: "world \<Rightarrow> world \<Rightarrow> bool" where
  "same_destination w w' \<longleftrightarrow>
     gold_user_activity w' = gold_user_activity w \<and> mutations w' = mutations w"

definition stays_in_past :: "world \<Rightarrow> world \<Rightarrow> bool" where
  "stays_in_past w w' \<longleftrightarrow> (stamped_in_past w \<longrightarrow> stamped_in_past w')"





text \<open>Once the environment has no outcome in stock any more, it stays so.\<close>

definition stays_exhausted :: "world \<Rightarrow> world \<Rightarrow> bool" where
  "stays_exhausted w w' \<longleftrightarrow> (outcomes w = [] \<longrightarrow> outcomes w' = [])"

text \<open>A doomed row of an earlier generation that is still readable.\<close>

definition ex_stale :: world where
  "ex_stale = ex_world\<lparr>gold_user_activity := [(ex_row ex_date 1 50, Some 100000)]\<rparr>"

text \<open>The two rows of the date are in the destination, and the store rejects the first
  statement after the connection.\<close>

definition ex_compacting :: world where
  "ex_compacting =
     ex_world\<lparr>gold_user_activity := [(ex_row ex_date 1 50, None), (ex_row ex_date 2 50, None)],
               outcomes := [None, Some (ClickHouseError ''boom'')]\<rparr>"

text \<open>A doomed, still readable row of a user who has no event on the date.\<close>

definition ex_orphan :: world where
  "ex_orphan = ex_world\<lparr>gold_user_activity := [(ex_row ex_date 7 50, Some 100000)]\<rparr>"

text \<open>The two rows of the date are in the destination.\<close>

definition ex_loaded :: world where
  "ex_loaded =
     ex_world\<lparr>gold_user_activity := [(ex_row ex_date 1 50, None), (ex_row ex_date 2 50, None)]\<rparr>"


text \<open>One row of the date in the destination, and a store that takes a hundred seconds
  to complete a mutation.\<close>

definition ex_slow :: world where
  "ex_slow =
     ex_world\<lparr>gold_user_activity := [(ex_row ex_date 1 50, None)], mutation_lag := 100000\<rparr>"

text \<open>The world after a poll of the mutation status that the store answered.\<close>

definition polled :: "world \<Rightarrow> world" where
  "polled w =
     logged [Log INFO ''Query returned {} rows'' [Num 1]]
       (called (Query Wait_query)
          (logged [Log INFO ''Executing query with results: {}...'' [Stmt Wait_query]] w))"

text \<open>The world in which the wait for the mutation starts: the connection is made, the
  count is read and the delete is issued, each of them answered by the store.\<close>

definition waiting :: "task_context \<Rightarrow> world \<Rightarrow> world" where
  "waiting context w =
     (let d = ds context;
          n = length (on_date d (readable (Suc (clock w)) (gold_user_activity w)))
      in logged [Log INFO ''Query executed successfully'' [],
                 Log INFO ''Deleted {} rows for date {}'' [Num n, Day d]]
           (called (Command (Delete_query d))
              (snd (delete_query d)
                 (logged [Log INFO ''Query returned {} rows'' [Num 1],
                          Log INFO ''Found {} existing rows for date {}'' [Num n, Day d],
                          Log INFO ''Executing query: {}...'' [Stmt (Delete_query d)]]
                    (called (Query (Count_query d))
                       (logged [Log INFO ''Successfully connected to ClickHouse'' [],
                                Log INFO ''Executing query with results: {}...''
                                  [Stmt (Count_query d)]]
                          (called (Connect CLICKHOUSE_CONFIG)
                             (logged [Log INFO ''Deleting existing partition for date: {}''
                                        [Day d]] w))))))))"

section \<open>Steps of a task\<close>

lemma logged_fields [simp]:
  "silver_events (logged evs w) = silver_events w"
  "silver_users (logged evs w) = silver_users w"
  "v_silver_users_all (logged evs w) = v_silver_users_all w"
  "gold_user_activity (logged evs w) = gold_user_activity w"
  "mutations (logged evs w) = mutations w"
  "mutation_lag (logged evs w) = mutation_lag w"
  "clock (logged evs w) = clock w"
  "outcomes (logged evs w) = outcomes w"
  "ti (logged evs w) = ti w"
  "trace (logged evs w) = trace w @ evs"
  by (simp_all add: logged_def)

lemma called_fields [simp]:
  "silver_events (called ev w) = silver_events w"
  "silver_users (called ev w) = silver_users w"
  "v_silver_users_all (called ev w) = v_silver_users_all w"
  "gold_user_activity (called ev w) = gold_user_activity w"
  "mutations (called ev w) = mutations w"
  "mutation_lag (called ev w) = mutation_lag w"
  "clock (called ev w) = Suc (clock w)"
  "outcomes (called ev w) = tl (outcomes w)"
  "ti (called ev w) = ti w"
  "trace (called ev w) = trace w @ [ev]"
  by (simp_all add: called_def)

lemma next_outcome_logged [simp]: "next_outcome (logged evs w) = next_outcome w"
  by (simp add: next_outcome_def)

lemma next_outcome_eq: "next_outcome w = outcome_at 0 w"
  by (simp add: next_outcome_def outcome_at_def)

lemma outcome_at_step [simp]:
  "outcome_at n (logged evs w) = outcome_at n w"
  "outcome_at n (called ev w) = outcome_at (Suc n) w"
  by (simp_all add: outcome_at_def drop_Suc)

lemma outcome_at_nth:
  "outcome_at n w = (if n < length (outcomes w) then outcomes w ! n else None)"
  by (simp add: outcome_at_def Cons_nth_drop_Suc [symmetric] split: list.splits)

lemma answered_outcome_at:
  assumes "answered k w" and "n < k"
  shows "outcome_at n w = None"
proof (cases "n < length (outcomes w)")
  case True
  with assms(2) have "take k (outcomes w) ! n = outcomes w ! n"
    and "n < length (take k (outcomes w))"
    by simp_all
  then have "outcomes w ! n \<in> set (take k (outcomes w))"
    by (metis nth_mem)
  with assms(1) True show ?thesis
    by (simp add: answered_def list_all_iff outcome_at_nth)
next
  case False
  then show ?thesis
    by (simp add: outcome_at_nth)
qed

lemma logger_eq: "logger l f a w = (Inr (), logged [Log l f a] w)"
  by (simp add: logger_def logged_def)

lemma client_close_eq: "client_close w = (Inr (), logged [Close] w)"
  by (simp add: client_close_def logged_def)

lemma get_clickhouse_client_eq:
  "get_clickhouse_client w =
     (case next_outcome w of
        None \<Rightarrow>
          (Inr (), logged [Log INFO ''Successfully connected to ClickHouse'' []]
                     (called (Connect CLICKHOUSE_CONFIG) w))
      | Some e \<Rightarrow>
          (Inl (AirflowException (''ClickHouse connection failed: '' @ str_exn e)),
           logged [Log ERROR ''Failed to connect to ClickHouse: {}'' [Exn e]]
             (called (Connect CLICKHOUSE_CONFIG) w)))"
  by (cases "next_outcome w")
     (simp_all add: get_clickhouse_client_def try_except_def andThen_def get_client_def
        logger_eq returns_def raise_def)

lemma execute_query_with_result_eq:
  "execute_query_with_result q w =
     (let w1 = logged [Log INFO ''Executing query with results: {}...'' [Stmt (fst q)]] w in
      case next_outcome w of
        None \<Rightarrow>
          (Inr (snd q w1),
           logged [Log INFO ''Query returned {} rows'' [Num (length (snd q w1))]]
             (called (Query (fst q)) w1))
      | Some e \<Rightarrow> (Inl (wrapped e), logged (wrap_log e) (called (Query (fst q)) w1)))"
proof (cases "next_outcome w")
  case None
  then show ?thesis
    by (simp add: execute_query_with_result_def try_except_def andThen_def client_query_def
        logger_eq returns_def Let_def)
next
  case (Some e)
  then show ?thesis
    by (cases e)
       (simp_all add: execute_query_with_result_def try_except_def andThen_def
          client_query_def logger_eq returns_def raise_def except_ClickHouseError_def
          wrapped_def wrap_log_def Let_def)
qed

lemma execute_query_eq:
  "execute_query c w =
     (let w1 = logged [Log INFO ''Executing query: {}...'' [Stmt (fst c)]] w in
      case next_outcome w of
        None \<Rightarrow>
          (Inr (), logged [Log INFO ''Query executed successfully'' []]
                     (called (Command (fst c)) (snd c w1)))
      | Some e \<Rightarrow> (Inl (wrapped e), logged (wrap_log e) (called (Command (fst c)) w1)))"
proof (cases "next_outcome w")
  case None
  then show ?thesis
    by (simp add: execute_query_def try_except_def andThen_def client_command_def
        logger_eq returns_def Let_def)
next
  case (Some e)
  then show ?thesis
    by (cases e)
       (simp_all add: execute_query_def try_except_def andThen_def client_command_def
          logger_eq returns_def raise_def except_ClickHouseError_def wrapped_def wrap_log_def
          Let_def)
qed

lemmas task_simps =
  Let_def andThen_def next_outcome_eq get_clickhouse_client_eq execute_query_with_result_eq
  execute_query_eq logger_eq client_close_eq returns_def raise_def xcom_push_def
  first_row_or_def

lemma andThen_Inr:
  "andThen m f w = (Inr y, w') \<longleftrightarrow> (\<exists>x w1. m w = (Inr x, w1) \<and> f x w1 = (Inr y, w'))"
  by (cases "m w") (auto simp: andThen_def split: sum.splits)


section \<open>What the statements do\<close>

lemma statement_names [simp]:
  "fst (events_query d) = Events_query d"
  "fst users_query = Users_query"
  "fst (count_query d) = Count_query d"
  "fst (delete_query d) = Delete_query d"
  "fst wait_query = Wait_query"
  "fst (insert_query d) = Insert_query d"
  "fst (verify_query d) = Verify_query d"
  "fst (optimize_query p) = Optimize_query p"
  "fst (source_query d) = Source_query d"
  "fst (dest_query d) = Dest_query d"
  by (simp_all add: events_query_def users_query_def count_query_def delete_query_def
      wait_query_def insert_query_def verify_query_def optimize_query_def source_query_def
      dest_query_def)

lemma query_rows [simp]:
  "snd (events_query d) w =
     [(length (events_on d (silver_events w)),
       uniq (map se_user_id (events_on d (silver_events w))),
       min_of (map se_event_timestamp (events_on d (silver_events w))),
       max_of (map se_event_timestamp (events_on d (silver_events w))))]"
  "snd users_query w = [length (v_silver_users_all w)]"
  "snd (count_query d) w = [length (on_date d (readable (clock w) (gold_user_activity w)))]"
  "snd wait_query w = [pending_at (clock w) w]"
  "snd (verify_query d) w =
     [(length (on_date d (readable (clock w) (gold_user_activity w))),
       sum_list (map event_count (on_date d (readable (clock w) (gold_user_activity w)))),
       uniq (map user_id (on_date d (readable (clock w) (gold_user_activity w)))))]"
  "snd (source_query d) w = [source_distinct_users d w]"
  "snd (dest_query d) w =
     [(dest_rows d (clock w) w,
       sum_list (map event_count
         (on_date d (final (readable (clock w) (gold_user_activity w))))))]"
  by (simp_all add: events_query_def users_query_def count_query_def wait_query_def
      verify_query_def source_query_def dest_query_def Let_def pending_at_def
      source_distinct_users_def dest_rows_def)

lemma delete_query_fields [simp]:
  "silver_events (snd (delete_query d) w) = silver_events w"
  "silver_users (snd (delete_query d) w) = silver_users w"
  "v_silver_users_all (snd (delete_query d) w) = v_silver_users_all w"
  "gold_user_activity (snd (delete_query d) w)
     = map (doom d (clock w + mutation_lag w)) (gold_user_activity w)"
  "mutations (snd (delete_query d) w) = mutations w @ [clock w + mutation_lag w]"
  "mutation_lag (snd (delete_query d) w) = mutation_lag w"
  "clock (snd (delete_query d) w) = clock w"
  "outcomes (snd (delete_query d) w) = outcomes w"
  "ti (snd (delete_query d) w) = ti w"
  "trace (snd (delete_query d) w) = trace w"
  by (simp_all add: delete_query_def)

lemma insert_query_fields [simp]:
  "silver_events (snd (insert_query d) w) = silver_events w"
  "silver_users (snd (insert_query d) w) = silver_users w"
  "v_silver_users_all (snd (insert_query d) w) = v_silver_users_all w"
  "gold_user_activity (snd (insert_query d) w)
     = gold_user_activity w
       @ map (\<lambda>r. (r, None)) (insert_select d (silver_events w) (silver_users w) (clock w))"
  "mutations (snd (insert_query d) w) = mutations w"
  "mutation_lag (snd (insert_query d) w) = mutation_lag w"
  "clock (snd (insert_query d) w) = clock w"
  "outcomes (snd (insert_query d) w) = outcomes w"
  "ti (snd (insert_query d) w) = ti w"
  "trace (snd (insert_query d) w) = trace w"
  by (simp_all add: insert_query_def)

lemma optimize_query_fields [simp]:
  "silver_events (snd (optimize_query p) w) = silver_events w"
  "silver_users (snd (optimize_query p) w) = silver_users w"
  "v_silver_users_all (snd (optimize_query p) w) = v_silver_users_all w"
  "gold_user_activity (snd (optimize_query p) w)
     = filter (\<lambda>s. \<not> in_partition p s) (gold_user_activity w)
       @ map (\<lambda>r. (r, None))
           (final (map fst (filter (in_partition p) (gold_user_activity w))))"
  "mutations (snd (optimize_query p) w) = mutations w"
  "mutation_lag (snd (optimize_query p) w) = mutation_lag w"
  "clock (snd (optimize_query p) w) = clock w"
  "outcomes (snd (optimize_query p) w) = outcomes w"
  "ti (snd (optimize_query p) w) = ti w"
  "trace (snd (optimize_query p) w) = trace w"
  by (simp_all add: optimize_query_def)

lemma outcome_at_command [simp]:
  "outcome_at n (snd (delete_query d) w) = outcome_at n w"
  "outcome_at n (snd (insert_query d) w) = outcome_at n w"
  "outcome_at n (snd (optimize_query p) w) = outcome_at n w"
  by (simp_all add: outcome_at_def)

lemma notions_step [simp]:
  "source_distinct_users d (logged evs w) = source_distinct_users d w"
  "source_distinct_users d (called ev w) = source_distinct_users d w"
  "dest_rows d now (logged evs w) = dest_rows d now w"
  "dest_rows d now (called ev w) = dest_rows d now w"
  "pending_at now (logged evs w) = pending_at now w"
  "pending_at now (called ev w) = pending_at now w"
  by (simp_all add: source_distinct_users_def dest_rows_def pending_at_def)

lemma outcome_at_exhausted: "outcomes w = [] \<Longrightarrow> outcome_at n w = None"
  by (simp add: outcome_at_def)

section \<open>The validation step\<close>

lemma validate_results_answered:
  assumes "answered 3 w"
  shows "fst (validate_results context w) =
    (let s = source_distinct_users (ds context) w;
         n = dest_rows (ds context) (clock w + 2) w in
     if reconciliation_invariant s n
     then Inr \<lparr>fv_target_date = ds context, fv_source_unique_users = s,
               fv_destination_rows = n,
               fv_destination_total_events =
                 sum_list (map event_count
                   (on_date (ds context)
                      (final (readable (clock w + 2) (gold_user_activity w))))),
               fv_validation_passed = True\<rparr>
     else Inl (validation_failed s n))"
proof -
  have "outcome_at 0 w = None" "outcome_at (Suc 0) w = None"
    "outcome_at (Suc (Suc 0)) w = None"
    using assms by (simp_all add: answered_outcome_at)
  then show ?thesis
    by (simp add: validate_results_def task_simps reconciliation_invariant_def
        validation_failed_def)
qed

lemma validate_results_unreachable:
  assumes "outcome_at 0 w = Some e"
  shows "fst (validate_results context w)
    = Inl (AirflowException (''ClickHouse connection failed: '' @ str_exn e))"
  using assms by (simp add: validate_results_def task_simps)

lemma validate_results_rejected:
  assumes "outcome_at 0 w = None" and "outcome_at (Suc 0) w = Some (ClickHouseError m)"
  shows "fst (validate_results context w)
    = Inl (AirflowException (''Query execution failed: '' @ m))"
  using assms by (simp add: validate_results_def task_simps wrapped_def)

lemma validate_results_Inr:
  assumes "validate_results context w = (Inr r, w')"
  shows "fv_validation_passed r
    \<and> reconciliation_invariant (fv_source_unique_users r) (fv_destination_rows r)
    \<and> fv_source_unique_users r = source_distinct_users (ds context) w
    \<and> fv_destination_rows r = dest_rows (ds context) (clock w + 2) w
    \<and> final_validation (ti w') = Some r"
  using assms
  by (auto simp: validate_results_def task_simps reconciliation_invariant_def
      split: option.splits if_splits)

lemma generate_report_ti: "generate_report context w = (r, w') \<Longrightarrow> ti w' = ti w"
  by (auto simp: generate_report_def task_simps)

lemma gold_user_activity_daily_Inr:
  assumes "gold_user_activity_daily context w = (Inr report, w')"
  shows "\<exists>w5 r w6. validate_results context w5 = (Inr r, w6)
           \<and> generate_report context w6 = (Inr report, w')"
  using assms unfolding gold_user_activity_daily_def andThen_Inr by blast

lemmas ex_defs =
  ex_world_def ex_context_def ex_date_def ex_row_def ex_mismatch_def ex_rejecting_def

lemmas store_defs =
  events_on_def uniq_def final_def readable_def on_date_def sorting_key_def toDate_def

lemma ex_mismatch_counts:
  "answered 3 ex_mismatch"
  "source_distinct_users (ds ex_context) ex_mismatch = 0"
  "dest_rows (ds ex_context) now ex_mismatch = 1"
  by (simp_all add: answered_def source_distinct_users_def dest_rows_def ex_defs store_defs)

lemma ex_mismatch_raises:
  "fst (validate_results ex_context ex_mismatch) = Inl (validation_failed 0 1)"
  by (simp add: validate_results_answered ex_mismatch_counts reconciliation_invariant_def)

lemma ex_rejecting_raises:
  "fst (validate_results ex_context ex_rejecting)
     = Inl (AirflowException ''Query execution failed: boom'')"
proof -
  have "fst (validate_results ex_context ex_rejecting)
     = Inl (AirflowException (''Query execution failed: '' @ ''boom''))"
    by (rule validate_results_rejected) (simp_all add: outcome_at_def ex_defs)
  then show ?thesis by simp
qed

section \<open>The deduplicated read\<close>

lemma concat_map_single:
  "(\<And>x. x \<in> set xs \<Longrightarrow> f x = [g x]) \<Longrightarrow> concat (map f xs) = map g xs"
  by (induction xs) simp_all

lemma latest_mem: "latest b rs \<in> set (b # rs)"
  by (induction rs arbitrary: b) auto

lemma latest_greatest: "\<forall>x \<in> set (b # rs). version x \<le> version (latest b rs)"
proof (induction rs arbitrary: b)
  case Nil
  then show ?case by simp
next
  case (Cons r rs)
  let ?b = "if version b \<le> version r then r else b"
  from Cons [of ?b] have ih: "\<forall>x \<in> set (?b # rs). version x \<le> version (latest ?b rs)" .
  then have top: "version ?b \<le> version (latest ?b rs)"
    by simp
  have "version b \<le> version ?b" "version r \<le> version ?b"
    by simp_all
  with top have "version b \<le> version (latest ?b rs)" "version r \<le> version (latest ?b rs)"
    by (blast intro: order_trans)+
  with ih show ?case
    by simp
qed

lemma rows_of_nonempty: "k \<in> set (map sorting_key rows) \<Longrightarrow> rows_of k rows \<noteq> []"
  by (auto simp: rows_of_def filter_empty_conv)

lemma shown_mem: "k \<in> set (map sorting_key rows) \<Longrightarrow> shown k rows \<in> set (rows_of k rows)"
proof -
  assume "k \<in> set (map sorting_key rows)"
  then obtain r rs where e: "rows_of k rows = r # rs"
    using rows_of_nonempty [of k rows] by (cases "rows_of k rows") auto
  show ?thesis
    unfolding shown_def e using latest_mem [of r rs] by simp
qed

lemma shown_key: "k \<in> set (map sorting_key rows) \<Longrightarrow> sorting_key (shown k rows) = k"
  using shown_mem [of k rows] by (simp add: rows_of_def)

lemma shown_greatest:
  assumes "y \<in> set rows"
  shows "version y \<le> version (shown (sorting_key y) rows)"
proof -
  from assms have k: "sorting_key y \<in> set (map sorting_key rows)"
    by simp
  then obtain r rs where e: "rows_of (sorting_key y) rows = r # rs"
    using rows_of_nonempty [of "sorting_key y" rows]
    by (cases "rows_of (sorting_key y) rows") auto
  from assms have "y \<in> set (rows_of (sorting_key y) rows)"
    by (simp add: rows_of_def)
  then have "y \<in> set (r # rs)"
    by (simp only: e)
  with latest_greatest [of r rs] have "version y \<le> version (latest r rs)"
    by blast
  then show ?thesis
    by (simp add: shown_def e)
qed

lemma final_eq_map: "final rows = map (\<lambda>k. shown k rows) (remdups (map sorting_key rows))"
proof -
  have "(case filter (\<lambda>r. sorting_key r = k) rows of [] \<Rightarrow> [] | r # rs \<Rightarrow> [latest r rs])
      = [shown k rows]"
    if "k \<in> set (remdups (map sorting_key rows))" for k
  proof -
    from that have "rows_of k rows \<noteq> []"
      by (simp add: rows_of_nonempty)
    then show ?thesis
      by (cases "rows_of k rows") (simp_all add: shown_def rows_of_def)
  qed
  then show ?thesis
    unfolding final_def by (rule concat_map_single)
qed

lemma final_subset: "set (final rows) \<subseteq> set rows"
proof
  fix x
  assume "x \<in> set (final rows)"
  then have "x \<in> (\<lambda>k. shown k rows) ` set (map sorting_key rows)"
    by (simp add: final_eq_map)
  then obtain k where "k \<in> set (map sorting_key rows)" and "x = shown k rows"
    by (rule imageE)
  with shown_mem [of k rows] show "x \<in> set rows"
    by (simp add: rows_of_def)
qed

lemma final_keys: "map sorting_key (final rows) = remdups (map sorting_key rows)"
proof -
  have "map (\<lambda>k. sorting_key (shown k rows)) (remdups (map sorting_key rows))
      = map (\<lambda>k. k) (remdups (map sorting_key rows))"
    by (rule map_cong) (simp_all add: shown_key)
  then show ?thesis
    by (simp add: final_eq_map comp_def)
qed

lemma final_greatest:
  assumes "x \<in> set (final rows)" and "y \<in> set rows" and "sorting_key y = sorting_key x"
  shows "version y \<le> version x"
proof -
  from assms(1) have "x \<in> (\<lambda>k. shown k rows) ` set (map sorting_key rows)"
    by (simp add: final_eq_map)
  then obtain k where k: "k \<in> set (map sorting_key rows)" and x: "x = shown k rows"
    by (rule imageE)
  from shown_key [OF k] x assms(3) have "sorting_key y = k"
    by simp
  with shown_greatest [OF assms(2)] x show ?thesis
    by simp
qed

lemma rows_of_distinct:
  assumes "distinct (map sorting_key rows)" and "x \<in> set rows"
  shows "rows_of (sorting_key x) rows = [x]"
  using assms
proof (induction rows)
  case Nil
  then show ?case by simp
next
  case (Cons a rows)
  show ?case
  proof (cases "x = a")
    case True
    from Cons.prems(1) have "\<forall>r \<in> set rows. sorting_key r \<noteq> sorting_key a"
      by (metis distinct.simps(2) imageI list.simps(9) set_map)
    then have "filter (\<lambda>r. sorting_key r = sorting_key a) rows = []"
      by (simp add: filter_empty_conv)
    with True show ?thesis
      by (simp add: rows_of_def)
  next
    case False
    with Cons.prems have in_rows: "x \<in> set rows"
      by simp
    with Cons.prems(1) have "sorting_key a \<noteq> sorting_key x"
      by (metis distinct.simps(2) imageI list.simps(9) set_map)
    with Cons.IH in_rows Cons.prems(1) show ?thesis
      by (simp add: rows_of_def)
  qed
qed

lemma final_distinct_keys:
  assumes "distinct (map sorting_key rows)"
  shows "final rows = rows"
proof -
  have "map (\<lambda>r. shown (sorting_key r) rows) rows = map (\<lambda>r. r) rows"
    by (rule map_cong) (simp_all add: shown_def rows_of_distinct [OF assms])
  with assms show ?thesis
    by (simp add: final_eq_map distinct_remdups_id comp_def)
qed

lemma final_on_date: "on_date d (final rows) = final (on_date d rows)"
proof -
  have keys: "filter (\<lambda>k. fst k = d) (remdups (map sorting_key rows))
      = remdups (map sorting_key (on_date d rows))"
    by (simp add: remdups_filter [symmetric] on_date_def filter_map comp_def sorting_key_def)
  have same: "shown k (on_date d rows) = shown k rows" if "fst k = d" for k
  proof -
    have "rows_of k (on_date d rows) = rows_of k rows"
      unfolding rows_of_def on_date_def filter_filter
      using that by (intro filter_cong) (auto simp: sorting_key_def)
    then show ?thesis
      by (simp add: shown_def)
  qed
  have "on_date d (final rows)
      = map (\<lambda>k. shown k rows) (filter (\<lambda>k. fst k = d) (remdups (map sorting_key rows)))"
  proof -
    have "filter ((\<lambda>r. activity_date r = d) \<circ> (\<lambda>k. shown k rows))
            (remdups (map sorting_key rows))
        = filter (\<lambda>k. fst k = d) (remdups (map sorting_key rows))"
    proof (rule filter_cong [OF refl])
      fix k
      assume "k \<in> set (remdups (map sorting_key rows))"
      then have "sorting_key (shown k rows) = k"
        by (simp add: shown_key)
      then have "activity_date (shown k rows) = fst k"
        by (metis fst_conv sorting_key_def)
      then show "((\<lambda>r. activity_date r = d) \<circ> (\<lambda>k. shown k rows)) k = (fst k = d)"
        by simp
    qed
    then show ?thesis
      by (simp add: on_date_def final_eq_map filter_map)
  qed
  also have "\<dots> = map (\<lambda>k. shown k (on_date d rows))
          (filter (\<lambda>k. fst k = d) (remdups (map sorting_key rows)))"
    by (rule map_cong) (simp_all add: same)
  finally show ?thesis
    by (simp add: keys final_eq_map [of "on_date d rows"])
qed

section \<open>The rows of the insert\<close>

lemma left_join_fst: "fst ` set (left_join ses sus) = set ses"
proof (induction ses)
  case Nil
  then show ?case by (simp add: left_join_def)
next
  case (Cons se ses)
  have "fst ` set (case filter (\<lambda>su. se_user_id se = su_user_id su) sus of
                     [] \<Rightarrow> [(se, no_match)]
                   | m # ms \<Rightarrow> map (\<lambda>su. (se, su)) (m # ms)) = {se}"
    by (cases "filter (\<lambda>su. se_user_id se = su_user_id su) sus") (auto simp: image_iff)
  with Cons show ?case
    by (simp add: left_join_def image_Un)
qed

lemma left_join_filter:
  "filter (\<lambda>j. P (fst j)) (left_join ses sus) = left_join (filter P ses) sus"
proof (induction ses)
  case Nil
  then show ?case by (simp add: left_join_def)
next
  case (Cons se ses)
  let ?chunk = "case filter (\<lambda>su. se_user_id se = su_user_id su) sus of
                  [] \<Rightarrow> [(se, no_match)]
                | m # ms \<Rightarrow> map (\<lambda>su. (se, su)) (m # ms)"
  have all: "\<forall>j \<in> set ?chunk. fst j = se"
    by (cases "filter (\<lambda>su. se_user_id se = su_user_id su) sus") auto
  have "filter (\<lambda>j. P (fst j)) ?chunk = (if P se then ?chunk else [])"
    using all by (auto simp: filter_empty_conv intro: filter_True)
  with Cons show ?case
    by (simp add: left_join_def)
qed

lemma left_join_unmatched:
  assumes "\<forall>se \<in> set ses. \<forall>su \<in> set sus. su_user_id su \<noteq> se_user_id se"
  shows "left_join ses sus = map (\<lambda>se. (se, no_match)) ses"
  using assms
proof (induction ses)
  case Nil
  then show ?case by (simp add: left_join_def)
next
  case (Cons se ses)
  then have "filter (\<lambda>su. se_user_id se = su_user_id su) sus = []"
    by (auto simp: filter_empty_conv)
  with Cons show ?case
    by (simp add: left_join_def)
qed

lemma left_join_single:
  assumes "\<forall>se \<in> set ses. filter (\<lambda>su. se_user_id se = su_user_id su) sus = [m]"
  shows "left_join ses sus = map (\<lambda>se. (se, m)) ses"
  using assms by (induction ses) (simp_all add: left_join_def)

text \<open>With at most one dimension row for the user, the join keeps one row per event.\<close>

lemma left_join_one_user:
  assumes "\<forall>se \<in> set ses. se_user_id se = u"
    and "length (filter (\<lambda>su. su_user_id su = u) sus) \<le> 1"
  shows "\<exists>m. left_join ses sus = map (\<lambda>se. (se, m)) ses"
proof (cases "filter (\<lambda>su. su_user_id su = u) sus")
  case Nil
  then have "\<forall>se \<in> set ses. \<forall>su \<in> set sus. su_user_id su \<noteq> se_user_id se"
    using assms(1) by (auto simp: filter_empty_conv)
  from left_join_unmatched [OF this] show ?thesis
    by blast
next
  case (Cons m ms)
  with assms(2) have one: "filter (\<lambda>su. su_user_id su = u) sus = [m]"
    by simp
  have "filter (\<lambda>su. se_user_id se = su_user_id su) sus = [m]" if "se \<in> set ses" for se
  proof -
    from that assms(1) have "se_user_id se = u"
      by simp
    then have "filter (\<lambda>su. se_user_id se = su_user_id su) sus
        = filter (\<lambda>su. su_user_id su = u) sus"
      by (intro filter_cong) auto
    with one show ?thesis
      by (simp only:)
  qed
  then have "\<forall>se \<in> set ses. filter (\<lambda>su. se_user_id se = su_user_id su) sus = [m]"
    by blast
  from left_join_single [OF this] show ?thesis
    by blast
qed

lemma aggregate_key [simp]:
  "sorting_key (aggregate now k g) = k"
  "activity_date (aggregate now k g) = fst k"
  "user_id (aggregate now k g) = snd k"
  "version (aggregate now k g) = now"
  "computed_at (aggregate now k g) = now"
  "event_count (aggregate now k g) = length g"
  by (simp_all add: aggregate_def sorting_key_def)

lemma unstamped_aggregate: "unstamped (aggregate now k g) = unstamped (aggregate 0 k g)"
  by (simp add: unstamped_def aggregate_def)

lemma joined_keys:
  "set (map group_key (left_join (events_on d ses) sus))
     = (\<lambda>se. (d, se_user_id se)) ` set (events_on d ses)"
proof -
  have "group_key ` set (left_join (events_on d ses) sus)
      = (\<lambda>se. (toDate (se_event_timestamp se), se_user_id se))
          ` fst ` set (left_join (events_on d ses) sus)"
    by (simp add: image_image group_key_def)
  also have "\<dots> = (\<lambda>se. (toDate (se_event_timestamp se), se_user_id se))
          ` set (events_on d ses)"
    by (simp only: left_join_fst)
  also have "\<dots> = (\<lambda>se. (d, se_user_id se)) ` set (events_on d ses)"
    by (rule image_cong) (simp_all add: events_on_def)
  finally show ?thesis
    by simp
qed

lemma insert_select_eq:
  "insert_select d ses sus now =
     map (\<lambda>k. aggregate now k
                 (filter (\<lambda>j. group_key j = k) (left_join (events_on d ses) sus)))
         (remdups (map group_key (left_join (events_on d ses) sus)))"
proof -
  have "filter (\<lambda>j. group_key j = k) (left_join (events_on d ses) sus) \<noteq> []"
    if "k \<in> set (map group_key (left_join (events_on d ses) sus))" for k
    using that by (auto simp: filter_empty_conv)
  then show ?thesis
    unfolding insert_select_def Let_def
    by (intro filter_True) auto
qed

lemma insert_select_keys:
  "map sorting_key (insert_select d ses sus now)
     = remdups (map group_key (left_join (events_on d ses) sus))"
  by (simp add: insert_select_eq comp_def)

lemma insert_select_distinct: "distinct (map sorting_key (insert_select d ses sus now))"
  by (simp add: insert_select_keys)

lemma insert_select_stamps:
  assumes "r \<in> set (insert_select d ses sus now)"
  shows "activity_date r = d" and "version r = now" and "computed_at r = now"
proof -
  from assms have "r \<in> (\<lambda>k. aggregate now k
                  (filter (\<lambda>j. group_key j = k) (left_join (events_on d ses) sus)))
              ` set (map group_key (left_join (events_on d ses) sus))"
    by (simp add: insert_select_eq)
  then obtain k where k: "k \<in> set (map group_key (left_join (events_on d ses) sus))"
    and r: "r = aggregate now k
                  (filter (\<lambda>j. group_key j = k) (left_join (events_on d ses) sus))"
    by (rule imageE)
  from k have "fst k = d"
    unfolding joined_keys by auto
  with r show "activity_date r = d" "version r = now" "computed_at r = now"
    by simp_all
qed

lemma insert_select_on_date:
  "on_date d (insert_select d ses sus now) = insert_select d ses sus now"
  unfolding on_date_def by (rule filter_True) (simp add: insert_select_stamps)

lemma insert_select_users:
  "set (map user_id (insert_select d ses sus now)) = se_user_id ` set (events_on d ses)"
proof -
  have "user_id ` set (insert_select d ses sus now)
      = snd ` sorting_key ` set (insert_select d ses sus now)"
    by (simp add: image_image sorting_key_def)
  also have "\<dots> = snd ` set (map sorting_key (insert_select d ses sus now))"
    by simp
  also have "\<dots> = snd ` (\<lambda>se. (d, se_user_id se)) ` set (events_on d ses)"
    by (simp only: insert_select_keys set_remdups joined_keys)
  finally show ?thesis
    by (simp add: image_image)
qed

lemma insert_select_distinct_users: "distinct (map user_id (insert_select d ses sus now))"
proof -
  have e: "map user_id (insert_select d ses sus now)
      = map snd (map sorting_key (insert_select d ses sus now))"
    by (simp add: sorting_key_def comp_def)
  have "inj_on snd (set (map sorting_key (insert_select d ses sus now)))"
  proof (rule inj_onI)
    fix a b
    assume a: "a \<in> set (map sorting_key (insert_select d ses sus now))"
      and b: "b \<in> set (map sorting_key (insert_select d ses sus now))"
      and e: "snd a = snd b"
    from a b have "fst a = d" "fst b = d"
      by (auto simp: sorting_key_def insert_select_stamps)
    with e show "a = b"
      by (simp add: prod_eq_iff)
  qed
  with insert_select_distinct [of d ses sus now]
  have "distinct (map snd (map sorting_key (insert_select d ses sus now)))"
    by (rule distinct_map [THEN iffD2, OF conjI])
  then show ?thesis
    by (simp only: e)
qed

lemma insert_select_length:
  "length (insert_select d ses sus now) = uniq (map se_user_id (events_on d ses))"
proof -
  have "length (insert_select d ses sus now)
      = card (set (map user_id (insert_select d ses sus now)))"
    using insert_select_distinct_users [of d ses sus now]
    by (metis distinct_card length_map)
  also have "\<dots> = card (se_user_id ` set (events_on d ses))"
    by (simp only: insert_select_users)
  finally show ?thesis
    by (simp add: uniq_def length_remdups_card_conv)
qed

text \<open>The group of a user is the join of the user's events of the date.\<close>

lemma insert_select_row:
  assumes "r \<in> set (insert_select d ses sus now)"
  shows "r = aggregate now (d, user_id r)
               (left_join (filter (\<lambda>se. se_user_id se = user_id r) (events_on d ses)) sus)"
proof -
  from assms have "r \<in> (\<lambda>k. aggregate now k
                  (filter (\<lambda>j. group_key j = k) (left_join (events_on d ses) sus)))
              ` set (map group_key (left_join (events_on d ses) sus))"
    by (simp add: insert_select_eq)
  then obtain k where k: "k \<in> set (map group_key (left_join (events_on d ses) sus))"
    and r: "r = aggregate now k
                  (filter (\<lambda>j. group_key j = k) (left_join (events_on d ses) sus))"
    by (rule imageE)
  from k have fk: "fst k = d"
    unfolding joined_keys by auto
  from r have sk: "snd k = user_id r"
    by simp
  from fk sk have kd: "k = (d, user_id r)"
    by (simp add: prod_eq_iff)
  have "filter (\<lambda>j. group_key j = k) (left_join (events_on d ses) sus)
      = filter (\<lambda>j. se_user_id (fst j) = user_id r) (left_join (events_on d ses) sus)"
  proof (rule filter_cong [OF refl])
    fix j
    assume "j \<in> set (left_join (events_on d ses) sus)"
    then have "fst j \<in> set (events_on d ses)"
      using left_join_fst [of "events_on d ses" sus] by blast
    then have "toDate (se_event_timestamp (fst j)) = d"
      by (simp add: events_on_def)
    then show "(group_key j = k) = (se_user_id (fst j) = user_id r)"
      by (simp add: group_key_def kd)
  qed
  also have "\<dots> = left_join (filter (\<lambda>se. se_user_id se = user_id r) (events_on d ses)) sus"
    by (rule left_join_filter)
  finally have g: "filter (\<lambda>j. group_key j = k) (left_join (events_on d ses) sus)
      = left_join (filter (\<lambda>se. se_user_id se = user_id r) (events_on d ses)) sus" .
  show ?thesis
    by (rule trans [OF r]) (simp only: g kd [symmetric])
qed

lemma insert_select_unstamped:
  "map unstamped (insert_select d ses sus now) = map unstamped (insert_select d ses sus 0)"
  by (simp add: insert_select_eq comp_def unstamped_aggregate [of now])

section \<open>What the tasks leave as it is\<close>

lemma asleep_fields [simp]:
  "silver_events (asleep secs w) = silver_events w"
  "silver_users (asleep secs w) = silver_users w"
  "v_silver_users_all (asleep secs w) = v_silver_users_all w"
  "gold_user_activity (asleep secs w) = gold_user_activity w"
  "mutations (asleep secs w) = mutations w"
  "mutation_lag (asleep secs w) = mutation_lag w"
  "clock (asleep secs w) = clock w + 1000 * secs"
  "outcomes (asleep secs w) = outcomes w"
  "ti (asleep secs w) = ti w"
  "trace (asleep secs w) = trace w @ [Sleep secs]"
  by (simp_all add: asleep_def)

lemma outcome_at_asleep [simp]: "outcome_at n (asleep secs w) = outcome_at n w"
  by (simp add: outcome_at_def)

lemma pending_at_asleep [simp]: "pending_at now (asleep secs w) = pending_at now w"
  by (simp add: pending_at_def)

lemma time_sleep_eq: "time_sleep secs w = (Inr (), asleep secs w)"
  by (simp add: time_sleep_def asleep_def)

lemma step_closed_trans:
  assumes "step_closed R" and "R a b" and "R b c"
  shows "R a c"
proof -
  from assms(1) have "\<forall>a b c. R a b \<longrightarrow> R b c \<longrightarrow> R a c"
    by (simp add: step_closed_def)
  with assms(2,3) show ?thesis
    by blast
qed

lemma step_closed_logged: "step_closed R \<Longrightarrow> R w (logged evs w)"
  by (simp add: step_closed_def)

lemma step_closed_called: "step_closed R \<Longrightarrow> R w (called ev w)"
  by (simp add: step_closed_def)

named_theorems keeps_intro

lemma keeps_returns [keeps_intro]: "step_closed R \<Longrightarrow> keeps R (returns x)"
  by (simp add: keeps_def step_closed_def returns_def)

lemma keeps_raise [keeps_intro]: "step_closed R \<Longrightarrow> keeps R (raise e)"
  by (simp add: keeps_def step_closed_def raise_def)

lemma keeps_andThen [keeps_intro]:
  assumes "step_closed R" and "keeps R m" and "\<And>x. keeps R (f x)"
  shows "keeps R (andThen m f)"
proof -
  have "R w (snd (andThen m f w))" for w
  proof (cases "m w")
    case (Pair r w1)
    from assms(2) Pair have 1: "R w w1"
      by (metis keeps_def snd_conv)
    show ?thesis
    proof (cases r)
      case (Inl e)
      with Pair 1 show ?thesis
        by (simp add: andThen_def)
    next
      case (Inr x)
      from assms(3) [of x] have "R w1 (snd (f x w1))"
        by (simp add: keeps_def)
      with 1 have "R w (snd (f x w1))"
        by (rule step_closed_trans [OF assms(1)])
      with Pair Inr show ?thesis
        by (simp add: andThen_def)
    qed
  qed
  then show ?thesis
    by (simp add: keeps_def)
qed

lemma keeps_try_except [keeps_intro]:
  assumes "step_closed R" and "keeps R m" and "\<And>e. keeps R (h e)"
  shows "keeps R (try_except m h)"
proof -
  have "R w (snd (try_except m h w))" for w
  proof (cases "m w")
    case (Pair r w1)
    from assms(2) Pair have 1: "R w w1"
      by (metis keeps_def snd_conv)
    show ?thesis
    proof (cases r)
      case (Inr x)
      with Pair 1 show ?thesis
        by (simp add: try_except_def)
    next
      case (Inl e)
      from assms(3) [of e] have "R w1 (snd (h e w1))"
        by (simp add: keeps_def)
      with 1 have "R w (snd (h e w1))"
        by (rule step_closed_trans [OF assms(1)])
      with Pair Inl show ?thesis
        by (simp add: try_except_def)
    qed
  qed
  then show ?thesis
    by (simp add: keeps_def)
qed

lemma keeps_if [keeps_intro]:
  "keeps R a \<Longrightarrow> keeps R b \<Longrightarrow> keeps R (if c then a else b)"
  by simp

lemma keeps_case_prod [keeps_intro]:
  "(\<And>a b. keeps R (f a b)) \<Longrightarrow> keeps R (case_prod f p)"
  by (cases p) simp

lemma keeps_logger [keeps_intro]: "step_closed R \<Longrightarrow> keeps R (logger l f a)"
  by (simp add: keeps_def step_closed_def logger_eq)

lemma keeps_client_close [keeps_intro]: "step_closed R \<Longrightarrow> keeps R client_close"
  by (simp add: keeps_def step_closed_def client_close_eq)

lemma keeps_time_sleep [keeps_intro]: "step_closed R \<Longrightarrow> keeps R (time_sleep secs)"
  by (simp add: keeps_def step_closed_def time_sleep_eq)

lemma keeps_xcom_push [keeps_intro]: "step_closed R \<Longrightarrow> keeps R (xcom_push put)"
  by (simp add: keeps_def step_closed_def xcom_push_def)

lemma step_closed_two:
  assumes "step_closed R"
  shows "R w (logged a (called ev (logged b w)))"
proof -
  have "R w (logged b w)"
    by (rule step_closed_logged [OF assms])
  moreover have "R (logged b w) (called ev (logged b w))"
    by (rule step_closed_called [OF assms])
  moreover have "R (called ev (logged b w)) (logged a (called ev (logged b w)))"
    by (rule step_closed_logged [OF assms])
  ultimately show ?thesis
    by (blast intro: step_closed_trans [OF assms])
qed

lemma keeps_get_clickhouse_client [keeps_intro]:
  assumes "step_closed R"
  shows "keeps R get_clickhouse_client"
proof -
  have "R w (logged a (called ev w))" for w a ev
    by (rule step_closed_trans [OF assms step_closed_called [OF assms]
          step_closed_logged [OF assms]])
  then show ?thesis
    by (simp add: keeps_def get_clickhouse_client_eq split: option.splits)
qed

lemma keeps_execute_query_with_result [keeps_intro]:
  assumes "step_closed R"
  shows "keeps R (execute_query_with_result q)"
  using step_closed_two [OF assms]
  by (simp add: keeps_def execute_query_with_result_eq Let_def split: option.splits)

text \<open>A statement with an effect needs the relation to hold across the effect and the
  call together.\<close>

lemma keeps_execute_query:
  assumes "step_closed R" and "\<And>w ev. R w (called ev (snd c w))"
  shows "keeps R (execute_query c)"
proof -
  have "R w (logged a (called ev (snd c (logged b w))))" for w a ev b
  proof -
    have "R w (logged b w)"
      by (rule step_closed_logged [OF assms(1)])
    moreover have "R (logged b w) (called ev (snd c (logged b w)))"
      by (rule assms(2))
    moreover
    have "R (called ev (snd c (logged b w))) (logged a (called ev (snd c (logged b w))))"
      by (rule step_closed_logged [OF assms(1)])
    ultimately show ?thesis
      by (blast intro: step_closed_trans [OF assms(1)])
  qed
  with step_closed_two [OF assms(1)] show ?thesis
    by (simp add: keeps_def execute_query_eq Let_def split: option.splits)
qed

lemma keeps_wait_for_mutation [keeps_intro]:
  assumes "step_closed R"
  shows "keeps R (wait_for_mutation n)"
  by (induction n) (auto intro!: keeps_intro assms simp: Let_def)

lemma keeps_validate_source_data:
  assumes "step_closed R"
  shows "keeps R (validate_source_data context)"
  unfolding validate_source_data_def Let_def
  by (intro keeps_intro assms)

lemma keeps_validate_results:
  assumes "step_closed R"
  shows "keeps R (validate_results context)"
  unfolding validate_results_def Let_def
  by (intro keeps_intro assms)

lemma keeps_generate_report:
  assumes "step_closed R"
  shows "keeps R (generate_report context)"
proof -
  have "R w (snd (generate_report context w))" for w
    using assms by (simp add: generate_report_def task_simps step_closed_def)
  then show ?thesis
    by (simp add: keeps_def)
qed

lemma keeps_delete_existing_partition:
  assumes "step_closed R"
    and "\<And>w ev. R w (called ev (snd (delete_query (ds context)) w))"
  shows "keeps R (delete_existing_partition context)"
  unfolding delete_existing_partition_def Let_def
  by (intro keeps_intro keeps_execute_query assms)

lemma keeps_compute_aggregations:
  assumes "step_closed R"
    and "\<And>w ev. R w (called ev (snd (insert_query (ds context)) w))"
  shows "keeps R (compute_aggregations context)"
  unfolding compute_aggregations_def Let_def
  by (intro keeps_intro keeps_execute_query assms)

lemma keeps_optimize_table:
  assumes "step_closed R"
    and "\<And>w ev. R w (called ev (snd (optimize_query (strftime_Ym (ds context))) w))"
  shows "keeps R (optimize_table context)"
  unfolding optimize_table_def Let_def
  by (intro keeps_intro keeps_execute_query assms)

lemma keeps_gold_user_activity_daily:
  assumes "step_closed R"
    and "\<And>w ev. R w (called ev (snd (delete_query (ds context)) w))"
    and "\<And>w ev. R w (called ev (snd (insert_query (ds context)) w))"
    and "\<And>w ev. R w (called ev (snd (optimize_query (strftime_Ym (ds context))) w))"
  shows "keeps R (gold_user_activity_daily context)"
  unfolding gold_user_activity_daily_def
  by (intro keeps_intro keeps_validate_source_data keeps_delete_existing_partition
      keeps_compute_aggregations keeps_optimize_table keeps_validate_results
      keeps_generate_report assms)

section \<open>Source tables, clock and the other partitions\<close>

lemma step_closed_same_tables: "step_closed same_tables"
  by (simp add: step_closed_def same_tables_def)

lemma same_tables_commands:
  "same_tables w (called ev (snd (delete_query d) w))"
  "same_tables w (called ev (snd (insert_query d) w))"
  "same_tables w (called ev (snd (optimize_query p) w))"
  by (simp_all add: same_tables_def)

lemma same_tables_run: "keeps same_tables (gold_user_activity_daily context)"
  by (intro keeps_gold_user_activity_daily step_closed_same_tables same_tables_commands)

lemma same_tables_tasks:
  "keeps same_tables (validate_source_data context)"
  "keeps same_tables (delete_existing_partition context)"
  "keeps same_tables (compute_aggregations context)"
  "keeps same_tables (optimize_table context)"
  "keeps same_tables (validate_results context)"
  "keeps same_tables (generate_report context)"
  by (intro keeps_validate_source_data keeps_delete_existing_partition
      keeps_compute_aggregations keeps_optimize_table keeps_validate_results
      keeps_generate_report step_closed_same_tables same_tables_commands)+

lemma keepsD: "keeps R m \<Longrightarrow> m w = (r, w') \<Longrightarrow> R w w'"
  by (metis keeps_def snd_conv)

lemma step_closed_same_destination: "step_closed same_destination"
  by (simp add: step_closed_def same_destination_def)

lemma same_destination_tasks:
  "keeps same_destination (validate_source_data context)"
  "keeps same_destination (validate_results context)"
  "keeps same_destination (generate_report context)"
  "keeps same_destination (wait_for_mutation n)"
  "keeps same_destination get_clickhouse_client"
  by (intro keeps_validate_source_data keeps_validate_results keeps_generate_report
      keeps_wait_for_mutation keeps_get_clickhouse_client step_closed_same_destination)+

subsection \<open>Stamps stay in the past\<close>

lemma stamped_in_past_later:
  assumes "stamped_in_past w"
    and "set (map fst (gold_user_activity w')) \<subseteq> set (map fst (gold_user_activity w))"
    and "clock w \<le> clock w'"
  shows "stamped_in_past w'"
proof -
  have "version (fst s) < clock w'" if "s \<in> set (gold_user_activity w')" for s
  proof -
    from that assms(2) obtain s0 where "s0 \<in> set (gold_user_activity w)" "fst s0 = fst s"
      by (metis (no_types, lifting) imageE image_eqI set_map subsetD)
    with assms(1) have "version (fst s) < clock w"
      by (metis (mono_tags, lifting) list_all_iff stamped_in_past_def)
    with assms(3) show ?thesis
      by simp
  qed
  then show ?thesis
    by (simp add: stamped_in_past_def list_all_iff)
qed

lemma step_closed_stays_in_past: "step_closed stays_in_past"
  by (auto simp: step_closed_def stays_in_past_def stamped_in_past_def list_all_iff)

lemma map_fst_doom: "map fst (map (doom d t) stored) = map fst stored"
  by (induction stored) (simp_all add: doom_def)

lemma stays_in_past_delete: "stays_in_past w (called ev (snd (delete_query d) w))"
proof -
  have "map fst (gold_user_activity (called ev (snd (delete_query d) w)))
      = map fst (gold_user_activity w)"
    by (simp only: called_fields delete_query_fields map_fst_doom)
  then have "set (map fst (gold_user_activity (called ev (snd (delete_query d) w))))
      \<subseteq> set (map fst (gold_user_activity w))"
    by (simp only: subset_refl)
  moreover have "clock w \<le> clock (called ev (snd (delete_query d) w))"
    by simp
  ultimately show ?thesis
    unfolding stays_in_past_def by (blast intro: stamped_in_past_later)
qed

lemma stays_in_past_optimize: "stays_in_past w (called ev (snd (optimize_query p) w))"
proof -
  have "set (final (map fst (filter (in_partition p) (gold_user_activity w))))
      \<subseteq> set (map fst (gold_user_activity w))"
    using final_subset [of "map fst (filter (in_partition p) (gold_user_activity w))"]
    by auto
  then have "set (map fst (gold_user_activity (called ev (snd (optimize_query p) w))))
      \<subseteq> set (map fst (gold_user_activity w))"
    by (auto simp: comp_def)
  moreover have "clock w \<le> clock (called ev (snd (optimize_query p) w))"
    by simp
  ultimately show ?thesis
    unfolding stays_in_past_def by (blast intro: stamped_in_past_later)
qed

lemma stays_in_past_insert: "stays_in_past w (called ev (snd (insert_query d) w))"
proof -
  have new: "version r < Suc (clock w)"
    if "r \<in> set (insert_select d (silver_events w) (silver_users w) (clock w))" for r
    using insert_select_stamps(2) [OF that] by simp
  have "version (fst s) < Suc (clock w)"
    if "stamped_in_past w"
      and "s \<in> set (gold_user_activity w)
             \<union> (\<lambda>r. (r, None))
                 ` set (insert_select d (silver_events w) (silver_users w) (clock w))"
    for s
  proof -
    from that(2) consider "s \<in> set (gold_user_activity w)"
      | r where "r \<in> set (insert_select d (silver_events w) (silver_users w) (clock w))"
          "s = (r, None)"
      by blast
    then show ?thesis
    proof cases
      case 1
      with that(1) have "version (fst s) < clock w"
        by (simp add: stamped_in_past_def list_all_iff)
      then show ?thesis
        by simp
    next
      case 2
      with new show ?thesis
        by simp
    qed
  qed
  then show ?thesis
    by (simp add: stays_in_past_def stamped_in_past_def [of "called _ _"] list_all_iff)
qed

lemma stays_in_past_run: "keeps stays_in_past (gold_user_activity_daily context)"
  by (intro keeps_gold_user_activity_daily step_closed_stays_in_past stays_in_past_delete
      stays_in_past_insert stays_in_past_optimize)

lemma stays_in_past_tasks:
  "keeps stays_in_past (validate_source_data context)"
  "keeps stays_in_past (delete_existing_partition context)"
  "keeps stays_in_past (compute_aggregations context)"
  "keeps stays_in_past (optimize_table context)"
  "keeps stays_in_past (validate_results context)"
  "keeps stays_in_past (generate_report context)"
  by (intro keeps_validate_source_data keeps_delete_existing_partition
      keeps_compute_aggregations keeps_optimize_table keeps_validate_results
      keeps_generate_report step_closed_stays_in_past stays_in_past_delete
      stays_in_past_insert stays_in_past_optimize)+

subsection \<open>The other dates and the other months\<close>












section \<open>What a successful task has done to the destination\<close>

lemma settled_append [simp]: "settled (a @ b) = settled a @ settled b"
  by (simp add: settled_def)

lemma settled_fresh [simp]: "settled (map (\<lambda>r. (r, None)) rows) = rows"
  by (induction rows) (simp_all add: settled_def)

lemma on_date_append [simp]: "on_date d (a @ b) = on_date d a @ on_date d b"
  by (simp add: on_date_def)

lemma readable_append [simp]: "readable now (a @ b) = readable now a @ readable now b"
  by (simp add: readable_def)

lemma readable_fresh [simp]: "readable now (map (\<lambda>r. (r, None)) rows) = rows"
  by (induction rows) (simp_all add: readable_def)

lemma settled_doom: "on_date d (settled (map (doom d t) stored)) = []"
  by (induction stored) (auto simp: settled_def on_date_def doom_def)

lemma settled_readable: "set (settled stored) \<subseteq> set (readable now stored)"
  by (auto simp: settled_def readable_def)

lemma nothing_readable_nothing_settled:
  assumes "on_date d (readable now stored) = []"
  shows "on_date d (settled stored) = []"
  using assms settled_readable [of stored now]
  by (auto simp: on_date_def filter_empty_conv)

lemma delete_existing_partition_Inr:
  assumes "delete_existing_partition context w = (Inr u, w')"
  shows "on_date (ds context) (settled (gold_user_activity w')) = []"
proof -
  let ?d = "ds context"
  let ?n = "length (on_date ?d (readable (Suc (clock w)) (gold_user_activity w)))"
  show ?thesis
  proof (cases "?n = 0")
    case True
    then have none: "on_date ?d (settled (gold_user_activity w)) = []"
      by (simp add: nothing_readable_nothing_settled)
    from assms True have "gold_user_activity w' = gold_user_activity w"
      by (auto simp: delete_existing_partition_def task_simps split: option.splits)
    with none show ?thesis
      by simp
  next
    case False
    with assms show ?thesis
      by (auto simp: delete_existing_partition_def task_simps same_destination_def
          settled_doom split: option.splits prod.splits sum.splits
          dest!: keepsD [OF same_destination_tasks(4)])
  qed
qed

lemma compute_aggregations_Inr:
  assumes "compute_aggregations context w = (Inr r, w')"
  shows "gold_user_activity w' = gold_user_activity w
           @ map (\<lambda>r. (r, None))
               (insert_select (ds context) (silver_events w) (silver_users w) (Suc (clock w)))"
    and "Suc (clock w) < clock w'"
    and "aggregation_result (ti w') = Some r"
  using assms
  by (auto simp: compute_aggregations_def task_simps split: option.splits prod.splits)

lemma optimize_table_destination:
  assumes "optimize_table context w = (r, w')"
  shows "gold_user_activity w' = gold_user_activity w
    \<or> gold_user_activity w'
        = filter (\<lambda>s. \<not> in_partition (strftime_Ym (ds context)) s) (gold_user_activity w)
          @ map (\<lambda>r. (r, None))
              (final (map fst (filter (in_partition (strftime_Ym (ds context)))
                                 (gold_user_activity w))))"
  using assms
  by (auto simp: optimize_table_def task_simps try_except_def split: option.splits)

text \<open>The compaction leaves the settled rows of the date alone when they have distinct
  keys.\<close>

lemma settled_not_in_partition:
  "on_date d (settled (filter (\<lambda>s. \<not> in_partition (strftime_Ym d) s) stored)) = []"
  by (induction stored) (auto simp: settled_def on_date_def in_partition_def)

lemma settled_in_partition:
  "on_date d (map fst (filter (in_partition (strftime_Ym d)) stored)) = on_date d (settled stored)"
  by (induction stored) (auto simp: settled_def on_date_def in_partition_def)

lemma optimize_table_settled:
  assumes "optimize_table context w = (r, w')"
    and "distinct (map sorting_key (on_date (ds context) (settled (gold_user_activity w))))"
  shows "on_date (ds context) (settled (gold_user_activity w'))
       = on_date (ds context) (settled (gold_user_activity w))"
proof -
  from optimize_table_destination [OF assms(1)] show ?thesis
  proof
    assume "gold_user_activity w' = gold_user_activity w"
    then show ?thesis by simp
  next
    assume "gold_user_activity w'
        = filter (\<lambda>s. \<not> in_partition (strftime_Ym (ds context)) s) (gold_user_activity w)
          @ map (\<lambda>r. (r, None))
              (final (map fst (filter (in_partition (strftime_Ym (ds context)))
                                 (gold_user_activity w))))"
    then have "on_date (ds context) (settled (gold_user_activity w'))
        = final (on_date (ds context) (settled (gold_user_activity w)))"
      by (simp add: settled_not_in_partition final_on_date settled_in_partition)
    with assms(2) show ?thesis
      by (simp add: final_distinct_keys)
  qed
qed

section \<open>A whole run\<close>

lemma step_closed_stays_exhausted: "step_closed stays_exhausted"
  by (simp add: step_closed_def stays_exhausted_def)

lemma stays_exhausted_commands:
  "stays_exhausted w (called ev (snd (delete_query d) w))"
  "stays_exhausted w (called ev (snd (insert_query d) w))"
  "stays_exhausted w (called ev (snd (optimize_query p) w))"
  by (simp_all add: stays_exhausted_def)

lemma stays_exhausted_tasks:
  "keeps stays_exhausted (validate_source_data context)"
  "keeps stays_exhausted (delete_existing_partition context)"
  "keeps stays_exhausted (compute_aggregations context)"
  "keeps stays_exhausted (optimize_table context)"
  "keeps stays_exhausted (validate_results context)"
  "keeps stays_exhausted (generate_report context)"
  "keeps stays_exhausted (wait_for_mutation n)"
  by (intro keeps_validate_source_data keeps_delete_existing_partition
      keeps_compute_aggregations keeps_optimize_table keeps_validate_results
      keeps_generate_report keeps_wait_for_mutation step_closed_stays_exhausted
      stays_exhausted_commands)+

lemma andThen_proj:
  "andThen m f w = (case fst (m w) of Inl e \<Rightarrow> (Inl e, snd (m w)) | Inr x \<Rightarrow> f x (snd (m w)))"
  by (cases "m w") (simp add: andThen_def split: sum.splits)

lemma exhausted_after:
  "keeps stays_exhausted m \<Longrightarrow> outcomes w = [] \<Longrightarrow> outcomes (snd (m w)) = []"
  by (simp add: keeps_def stays_exhausted_def)

text \<open>With nothing in the way, every task but the validation returns.\<close>

lemma wait_for_mutation_exhausted:
  "outcomes w = [] \<Longrightarrow> fst (wait_for_mutation n w) = Inr ()"
proof (induction n arbitrary: w)
  case 0
  then show ?case by (simp add: returns_def)
next
  case (Suc n)
  let ?w1 = "logged [Log INFO ''Query returned {} rows'' [Num (Suc 0)]]
               (called (Query Wait_query)
                  (logged [Log INFO ''Executing query with results: {}...'' [Stmt Wait_query]] w))"
  from Suc.prems have "outcomes (asleep 1 ?w1) = []"
    by simp
  from Suc.IH [OF this] Suc.prems show ?case
    by (simp add: task_simps outcome_at_exhausted time_sleep_eq)
qed

lemma validate_source_data_exhausted:
  "outcomes w = [] \<Longrightarrow> \<exists>r. fst (validate_source_data context w) = Inr r"
  by (simp add: validate_source_data_def task_simps outcome_at_exhausted split: prod.splits)

lemma delete_existing_partition_exhausted:
  assumes "outcomes w = []"
  shows "fst (delete_existing_partition context w) = Inr ()"
proof -
  from assms show ?thesis
    by (simp add: delete_existing_partition_def Let_def andThen_proj next_outcome_eq
        get_clickhouse_client_eq execute_query_with_result_eq execute_query_eq logger_eq
        client_close_eq xcom_push_def first_row_or_def outcome_at_exhausted
        wait_for_mutation_exhausted)
qed

lemma compute_aggregations_exhausted:
  "outcomes w = [] \<Longrightarrow> \<exists>r. fst (compute_aggregations context w) = Inr r"
  by (simp add: compute_aggregations_def task_simps outcome_at_exhausted split: prod.splits)

lemma optimize_table_exhausted:
  "outcomes w = [] \<Longrightarrow> fst (optimize_table context w) = Inr ()"
  by (simp add: optimize_table_def task_simps try_except_def outcome_at_exhausted)

lemma generate_report_returns: "\<exists>report. fst (generate_report context w) = Inr report"
  by (simp add: generate_report_def task_simps)

lemma answered_exhausted: "outcomes w = [] \<Longrightarrow> answered n w"
  by (simp add: answered_def)

text \<open>The steps of a run that succeeded.\<close>

lemma run_steps:
  assumes "gold_user_activity_daily context w = (Inr report, w')"
  obtains r1 w1 w2 r3 w3 w4 r5 w5 where
    "validate_source_data context (w\<lparr>ti := no_xcom\<rparr>) = (Inr r1, w1)"
    "delete_existing_partition context w1 = (Inr (), w2)"
    "compute_aggregations context w2 = (Inr r3, w3)"
    "optimize_table context w3 = (Inr (), w4)"
    "validate_results context w4 = (Inr r5, w5)"
    "generate_report context w5 = (Inr report, w')"
  using assms unfolding gold_user_activity_daily_def andThen_Inr
  by (auto simp: xcom_push_def)

lemma same_tablesD:
  assumes "same_tables w w'"
  shows "silver_events w' = silver_events w" "silver_users w' = silver_users w"
    "clock w \<le> clock w'"
  using assms by (simp_all add: same_tables_def)

text \<open>After a run that succeeded, the settled rows of the date are the rows of its insert.\<close>

lemma run_settled:
  assumes "gold_user_activity_daily context w = (Inr report, w')"
  shows "\<exists>now. clock w < now \<and> now < clock w'
           \<and> on_date (ds context) (settled (gold_user_activity w'))
               = insert_select (ds context) (silver_events w) (silver_users w) now"
proof -
  let ?d = "ds context"
  from assms obtain r1 w1 w2 r3 w3 w4 r5 w5 where
    s1: "validate_source_data context (w\<lparr>ti := no_xcom\<rparr>) = (Inr r1, w1)"
    and s2: "delete_existing_partition context w1 = (Inr (), w2)"
    and s3: "compute_aggregations context w2 = (Inr r3, w3)"
    and s4: "optimize_table context w3 = (Inr (), w4)"
    and s5: "validate_results context w4 = (Inr r5, w5)"
    and s6: "generate_report context w5 = (Inr report, w')"
    by (rule run_steps)
  note t1 = same_tablesD [OF keepsD [OF same_tables_tasks(1) s1]]
  note t2 = same_tablesD [OF keepsD [OF same_tables_tasks(2) s2]]
  note t4 = same_tablesD [OF keepsD [OF same_tables_tasks(4) s4]]
  note t5 = same_tablesD [OF keepsD [OF same_tables_tasks(5) s5]]
  note t6 = same_tablesD [OF keepsD [OF same_tables_tasks(6) s6]]
  let ?now = "Suc (clock w2)"
  let ?rows = "insert_select ?d (silver_events w) (silver_users w) ?now"
  from t1 t2 have src: "silver_events w2 = silver_events w" "silver_users w2 = silver_users w"
    by simp_all
  from t1(3) t2(3) have c2: "clock w \<le> clock w2"
    by simp
  from compute_aggregations_Inr(1) [OF s3] delete_existing_partition_Inr [OF s2]
  have g3: "on_date ?d (settled (gold_user_activity w3)) = ?rows"
    by (simp add: src insert_select_on_date)
  have "distinct (map sorting_key ?rows)"
    by (rule insert_select_distinct)
  with optimize_table_settled [OF s4] g3
  have g4: "on_date ?d (settled (gold_user_activity w4)) = ?rows"
    by simp
  from keepsD [OF same_destination_tasks(2) s5] keepsD [OF same_destination_tasks(3) s6]
  have "gold_user_activity w' = gold_user_activity w4"
    by (simp add: same_destination_def)
  with g4 have "on_date ?d (settled (gold_user_activity w')) = ?rows"
    by simp
  moreover from compute_aggregations_Inr(2) [OF s3] t4(3) t5(3) t6(3)
  have "?now < clock w'"
    by simp
  moreover from c2 have "clock w < ?now"
    by simp
  ultimately show ?thesis
    by blast
qed

lemma run_same_tables:
  assumes "gold_user_activity_daily context w = (r, w')"
  shows "silver_events w' = silver_events w" "silver_users w' = silver_users w"
    "clock w \<le> clock w'"
  using same_tablesD [OF keepsD [OF same_tables_run assms]] .

text \<open>A row that is settled is shown by the deduplicated read of its date.\<close>

lemma settled_row_shown:
  assumes "r \<in> set (on_date d (settled stored))"
  shows "on_date d (final (readable now stored)) \<noteq> []"
proof -
  from assms have r: "r \<in> set (readable now stored)" and d: "activity_date r = d"
    using settled_readable [of stored now] by (auto simp: on_date_def)
  then have "sorting_key r \<in> set (map sorting_key (final (readable now stored)))"
    by (simp add: final_keys)
  then obtain x where "x \<in> set (final (readable now stored))" "sorting_key x = sorting_key r"
    by (metis (no_types, lifting) imageE set_map)
  with d have "x \<in> set (on_date d (final (readable now stored)))"
    by (simp add: on_date_def sorting_key_def)
  then show ?thesis
    by (metis empty_iff list.set(1))
qed

text \<open>With nothing in the way and an event on the date, the whole run succeeds.\<close>

lemma run_succeeds:
  assumes "outcomes w = []" and "events_on (ds context) (silver_events w) \<noteq> []"
  shows "\<exists>report w'. gold_user_activity_daily context w = (Inr report, w')"
proof -
  let ?d = "ds context"
  let ?w0 = "w\<lparr>ti := no_xcom\<rparr>"
  from assms(1) have o0: "outcomes ?w0 = []"
    by simp
  obtain r1 w1 where s1: "validate_source_data context ?w0 = (Inr r1, w1)"
    using validate_source_data_exhausted [OF o0, of "context"] by (metis prod.collapse)
  from exhausted_after [OF stays_exhausted_tasks(1) o0, of "context"] s1
  have o1: "outcomes w1 = []"
    by simp
  obtain w2 where s2: "delete_existing_partition context w1 = (Inr (), w2)"
    using delete_existing_partition_exhausted [OF o1, of "context"] by (metis prod.collapse)
  from exhausted_after [OF stays_exhausted_tasks(2) o1, of "context"] s2
  have o2: "outcomes w2 = []"
    by simp
  obtain r3 w3 where s3: "compute_aggregations context w2 = (Inr r3, w3)"
    using compute_aggregations_exhausted [OF o2, of "context"] by (metis prod.collapse)
  from exhausted_after [OF stays_exhausted_tasks(3) o2, of "context"] s3
  have o3: "outcomes w3 = []"
    by simp
  obtain w4 where s4: "optimize_table context w3 = (Inr (), w4)"
    using optimize_table_exhausted [OF o3, of "context"] by (metis prod.collapse)
  from exhausted_after [OF stays_exhausted_tasks(4) o3, of "context"] s4
  have o4: "outcomes w4 = []"
    by simp
  note t1 = same_tablesD [OF keepsD [OF same_tables_tasks(1) s1]]
  note t2 = same_tablesD [OF keepsD [OF same_tables_tasks(2) s2]]
  note t3 = same_tablesD [OF keepsD [OF same_tables_tasks(3) s3]]
  note t4 = same_tablesD [OF keepsD [OF same_tables_tasks(4) s4]]
  from t1 t2 t3 t4 have ev4: "silver_events w4 = silver_events w"
    and ev2: "silver_events w2 = silver_events w"
    by simp_all
  let ?rows = "insert_select ?d (silver_events w2) (silver_users w2) (Suc (clock w2))"
  from compute_aggregations_Inr(1) [OF s3] delete_existing_partition_Inr [OF s2]
  have g3: "on_date ?d (settled (gold_user_activity w3)) = ?rows"
    by (simp add: insert_select_on_date)
  have "distinct (map sorting_key ?rows)"
    by (rule insert_select_distinct)
  with optimize_table_settled [OF s4] g3
  have g4: "on_date ?d (settled (gold_user_activity w4)) = ?rows"
    by simp
  from assms(2) have pos: "0 < uniq (map se_user_id (events_on ?d (silver_events w)))"
    by (simp add: uniq_def)
  then have "?rows \<noteq> []"
    using insert_select_length [of ?d "silver_events w2" "silver_users w2" "Suc (clock w2)"]
    by (auto simp: ev2)
  then obtain r where "r \<in> set (on_date ?d (settled (gold_user_activity w4)))"
    unfolding g4 by (metis last_in_set)
  from settled_row_shown [OF this] have "0 < dest_rows ?d (clock w4 + 2) w4"
    by (simp add: dest_rows_def)
  moreover from pos have "0 < source_distinct_users ?d w4"
    by (simp add: source_distinct_users_def ev4)
  ultimately have "reconciliation_invariant (source_distinct_users ?d w4)
      (dest_rows ?d (clock w4 + 2) w4)"
    by (simp add: reconciliation_invariant_def)
  with validate_results_answered [OF answered_exhausted [OF o4], of "context"]
  have "\<exists>r5. fst (validate_results context w4) = Inr r5"
    by (simp add: Let_def)
  then obtain r5 w5 where s5: "validate_results context w4 = (Inr r5, w5)"
    by (metis prod.collapse)
  obtain report w' where s6: "generate_report context w5 = (Inr report, w')"
    using generate_report_returns [of "context" w5] by (metis prod.collapse)
  from s1 s2 s3 s4 s5 s6 have "gold_user_activity_daily context w = (Inr report, w')"
    by (simp add: gold_user_activity_daily_def andThen_def xcom_push_def)
  then show ?thesis
    by blast
qed

section \<open>The examples\<close>

lemma ex_world_runs:
  "outcomes ex_world = []"
  "events_on (ds ex_context) (silver_events ex_world) \<noteq> []"
  by (simp_all add: ex_defs store_defs)

lemma optimize_table_outcomes:
  "outcome_at 0 w = None \<Longrightarrow> outcomes (snd (optimize_table context w)) = tl (tl (outcomes w))"
  by (simp add: optimize_table_def task_simps try_except_def split: option.splits)

lemma ex_compacting_outcomes:
  "outcome_at 0 ex_compacting = None"
  "outcome_at 1 ex_compacting = Some (ClickHouseError ''boom'')"
  by (simp_all add: outcome_at_def ex_compacting_def)

lemma ex_compacting_counts:
  "source_distinct_users (ds ex_context) ex_compacting = 2"
  "length (on_date (ds ex_context) (final (readable now (gold_user_activity ex_compacting)))) = 2"
  by (simp_all add: source_distinct_users_def ex_compacting_def ex_defs store_defs)


section \<open>The compute step\<close>

lemma argMax_all_null: "argMax (map (\<lambda>x. (None, val x)) xs) = None"
  by (induction xs) (simp_all add: argMax_def)

lemma aggregate_unmatched:
  "user_full_name (aggregate now k (map (\<lambda>se. (se, no_match)) es)) = ''''"
  "user_email (aggregate now k (map (\<lambda>se. (se, no_match)) es)) = ''''"
  by (simp_all add: aggregate_def comp_def no_match_def argMax_all_null coalesce_def)

lemma compute_aggregations_answered:
  "answered 3 w \<Longrightarrow> \<exists>r. fst (compute_aggregations context w) = Inr r"
  by (simp add: compute_aggregations_def task_simps answered_outcome_at numeral_3_eq_3
      split: prod.splits)


section \<open>Generations\<close>

lemma readable_stored: "set (readable now stored) \<subseteq> fst ` set stored"
  by (auto simp: readable_def)

text \<open>A new generation that out-ranks every readable row is what the deduplicated read
  shows for its keys.\<close>

lemma final_new_generation:
  assumes "seen \<in> set (final (old @ new))"
    and "sorting_key seen \<in> sorting_key ` set new"
    and "\<forall>a \<in> set old. \<forall>b \<in> set new. version a < version b"
  shows "seen \<in> set new"
proof (rule ccontr)
  assume out: "seen \<notin> set new"
  from assms(1) final_subset [of "old @ new"] out have prior: "seen \<in> set old"
    by auto
  from assms(2) obtain n where n: "n \<in> set new" "sorting_key n = sorting_key seen"
    by (rule imageE) simp
  then have "version n \<le> version seen"
    using final_greatest [OF assms(1), of n] by simp
  moreover from assms(3) prior n(1) have "version seen < version n"
    by blast
  ultimately show False
    by simp
qed

lemma compute_aggregations_clock:
  assumes "compute_aggregations context w = (Inr r, w')"
  shows "clock w' = clock w + 3"
  using assms
  by (auto simp: compute_aggregations_def task_simps split: option.splits prod.splits)

lemma ex_orphan_stamped: "stamped_in_past ex_orphan"
  by (simp add: stamped_in_past_def ex_orphan_def ex_defs)

lemma ex_stale_stamped: "stamped_in_past ex_stale"
  by (simp add: stamped_in_past_def ex_stale_def ex_defs)

lemma ex_insert:
  "map user_id (insert_select ex_date (silver_events ex_world) (silver_users ex_world) now)
     = [1, 2]"
  by (simp add: insert_select_def left_join_def group_key_def aggregate_def ex_defs store_defs)


section \<open>The invariant after the validation\<close>

lemma validate_results_clock:
  assumes "validate_results context w = (Inr r, w')"
  shows "clock w' = clock w + 3"
  using assms
  by (auto simp: validate_results_def task_simps split: option.splits if_splits)

lemma validate_results_tables:
  assumes "validate_results context w = (r, w')"
  shows "source_distinct_users d w' = source_distinct_users d w"
    and "dest_rows d now w' = dest_rows d now w"
  using keepsD [OF same_tables_tasks(5) assms] keepsD [OF same_destination_tasks(2) assms]
  by (simp_all add: source_distinct_users_def dest_rows_def same_tables_def
      same_destination_def)

lemma generate_report_tables:
  assumes "generate_report context w = (r, w')"
  shows "source_distinct_users d w' = source_distinct_users d w"
    and "dest_rows d now w' = dest_rows d now w"
    and "clock w' = clock w"
  using keepsD [OF same_tables_tasks(6) assms] keepsD [OF same_destination_tasks(3) assms]
    assms
  by (auto simp: source_distinct_users_def dest_rows_def same_tables_def
      same_destination_def generate_report_def task_simps)

lemma final_empty: "final rows = [] \<longleftrightarrow> rows = []"
proof -
  have "map sorting_key (final rows) = [] \<longleftrightarrow> map sorting_key rows = []"
    by (simp only: final_keys remdups_eq_nil_iff)
  then show ?thesis
    by simp
qed

text \<open>A date the deduplicated read shows no row of stays without rows: time only takes
  readable rows away.\<close>

lemma dest_rows_stays_zero:
  assumes "dest_rows d at w = 0" and "at \<le> now"
  shows "dest_rows d now w = 0"
proof -
  from assms(1) have none: "on_date d (readable at (gold_user_activity w)) = []"
    by (simp add: dest_rows_def final_on_date final_empty)
  have "set (readable now (gold_user_activity w)) \<subseteq> set (readable at (gold_user_activity w))"
    using assms(2) by (auto simp: readable_def split: option.splits)
  with none have "on_date d (readable now (gold_user_activity w)) = []"
    by (auto simp: on_date_def filter_empty_conv)
  then show ?thesis
    by (simp add: dest_rows_def final_on_date final_empty)
qed

lemma run_invariant:
  assumes "gold_user_activity_daily context w = (Inr report, w')"
  shows "\<exists>r at. at \<le> clock w' \<and> final_validation (ti w') = Some r \<and> fv_validation_passed r
    \<and> fv_source_unique_users r = source_distinct_users (ds context) w'
    \<and> fv_destination_rows r = dest_rows (ds context) at w'
    \<and> source_distinct_users (ds context) w' = source_distinct_users (ds context) w
    \<and> (\<forall>now \<ge> at. reconciliation_invariant (source_distinct_users (ds context) w')
                      (dest_rows (ds context) now w'))"
proof -
  let ?d = "ds context"
  from assms obtain r1 w1 w2 r3 w3 w4 r5 w5 where
    s5: "validate_results context w4 = (Inr r5, w5)"
    and s6: "generate_report context w5 = (Inr report, w')"
    by (rule run_steps)
  let ?at = "clock w4 + 2"
  note v = validate_results_Inr [OF s5]
  note t5 = validate_results_tables [OF s5]
  note t6 = generate_report_tables [OF s6]
  have src: "source_distinct_users ?d w' = source_distinct_users ?d w"
    by (simp add: source_distinct_users_def run_same_tables(1) [OF assms])
  have at: "?at \<le> clock w'"
    by (simp add: t6(3) validate_results_clock [OF s5])
  have rec: "final_validation (ti w') = Some r5"
    using v generate_report_ti [OF s6] by simp
  have su: "fv_source_unique_users r5 = source_distinct_users ?d w'"
    using v by (simp add: t5(1) t6(1))
  have de: "fv_destination_rows r5 = dest_rows ?d ?at w'"
    using v by (simp add: t5(2) t6(2))
  have "reconciliation_invariant (source_distinct_users ?d w') (dest_rows ?d now w')"
    if "?at \<le> now" for now
  proof (cases "source_distinct_users ?d w' = 0")
    case True
    with v su de have "dest_rows ?d ?at w' = 0"
      by (simp add: reconciliation_invariant_def)
    from dest_rows_stays_zero [OF this that] True show ?thesis
      by (simp add: reconciliation_invariant_def)
  next
    case False
    from run_settled [OF assms] obtain stamp where
      rows: "on_date ?d (settled (gold_user_activity w'))
               = insert_select ?d (silver_events w) (silver_users w) stamp"
      by blast
    have "length (on_date ?d (settled (gold_user_activity w'))) = source_distinct_users ?d w"
      by (simp only: rows insert_select_length source_distinct_users_def)
    with False src obtain row where "row \<in> set (on_date ?d (settled (gold_user_activity w')))"
      by (cases "on_date ?d (settled (gold_user_activity w'))") auto
    from settled_row_shown [OF this, of now] False show ?thesis
      by (simp add: reconciliation_invariant_def dest_rows_def)
  qed
  with at rec su de src v show ?thesis
    by blast
qed

lemma ex_loaded_counts:
  "answered 3 ex_loaded"
  "source_distinct_users (ds ex_context) ex_loaded = 2"
  "dest_rows (ds ex_context) now ex_loaded = 2"
  by (simp_all add: answered_def source_distinct_users_def dest_rows_def ex_loaded_def
      ex_defs store_defs)


section \<open>The compaction\<close>





section \<open>The wait for the mutation\<close>

lemma pacing_append [simp]: "pacing (a @ b) = pacing a @ pacing b"
  by (simp add: pacing_def)

lemma pacing_Cons [simp]:
  "pacing [] = []"
  "pacing (Log l f a # tr) = pacing tr"
  "pacing (Connect c # tr) = pacing tr"
  "pacing (Command st # tr) = pacing tr"
  "pacing (Query st # tr) = (if st = Wait_query then Query st # pacing tr else pacing tr)"
  "pacing (Sleep secs # tr) = Sleep secs # pacing tr"
  "pacing (Close # tr) = pacing tr"
  by (simp_all add: pacing_def)

lemma pacing_wrap_log [simp]: "pacing (wrap_log e) = []"
  by (cases e) (simp_all add: wrap_log_def)

lemma polled_pending [simp]:
  "pending_at now (polled w) = pending_at now w"
  by (simp add: polled_def)

lemma polled_fields [simp]:
  "mutations (polled w) = mutations w"
  "clock (polled w) = Suc (clock w)"
  "outcomes (polled w) = tl (outcomes w)"
  "gold_user_activity (polled w) = gold_user_activity w"
  "trace (polled w)
     = trace w @ [Log INFO ''Executing query with results: {}...'' [Stmt Wait_query],
                  Query Wait_query, Log INFO ''Query returned {} rows'' [Num 1]]"
  by (simp_all add: polled_def)

lemma wait_poll:
  "outcome_at 0 w = None \<Longrightarrow> pending_at (clock w) w = 0 \<Longrightarrow>
     wait_for_mutation (Suc n) w = (Inr (), polled w)"
  "outcome_at 0 w = None \<Longrightarrow> pending_at (clock w) w \<noteq> 0 \<Longrightarrow>
     wait_for_mutation (Suc n) w = wait_for_mutation n (asleep 1 (polled w))"
  "outcome_at 0 w = Some e \<Longrightarrow>
     wait_for_mutation (Suc n) w
       = (Inl (wrapped e),
          logged (wrap_log e)
            (called (Query Wait_query)
               (logged [Log INFO ''Executing query with results: {}...'' [Stmt Wait_query]] w)))"
  by (simp_all add: task_simps time_sleep_eq polled_def)

text \<open>Polls and sleeps alternate, and there are at most \<open>n\<close> polls.\<close>

lemma wait_pacing:
  "\<exists>m \<le> 2 * n. pacing (trace (snd (wait_for_mutation n w)))
      = pacing (trace w) @ take m (concat (replicate n [Query Wait_query, Sleep 1]))"
proof (induction n arbitrary: w)
  case 0
  then show ?case
    by (simp add: returns_def)
next
  case (Suc n)
  let ?rounds = "concat (replicate n [Query Wait_query, Sleep 1])"
  have one: "\<exists>m \<le> 2 * Suc n. pacing (trace w) @ [Query Wait_query]
      = pacing (trace w) @ take m (concat (replicate (Suc n) [Query Wait_query, Sleep 1]))"
    by (intro exI [of _ 1]) simp
  show ?case
  proof (cases "outcome_at 0 w")
    case (Some e)
    have "pacing (trace (snd (wait_for_mutation (Suc n) w))) = pacing (trace w) @ [Query Wait_query]"
      by (simp add: wait_poll(3) [OF Some] del: wait_for_mutation.simps)
    with one show ?thesis
      by (simp only:)
  next
    case None
    show ?thesis
    proof (cases "pending_at (clock w) w = 0")
      case True
      have "pacing (trace (snd (wait_for_mutation (Suc n) w)))
          = pacing (trace w) @ [Query Wait_query]"
        by (simp add: wait_poll(1) [OF None True] del: wait_for_mutation.simps)
      with one show ?thesis
        by (simp only:)
    next
      case False
      from Suc.IH [of "asleep 1 (polled w)"] obtain m where m: "m \<le> 2 * n"
        and tr: "pacing (trace (snd (wait_for_mutation n (asleep 1 (polled w)))))
          = pacing (trace (asleep 1 (polled w))) @ take m ?rounds"
        by blast
      have "pacing (trace (asleep 1 (polled w))) = pacing (trace w) @ [Query Wait_query, Sleep 1]"
        by simp
      with tr have "pacing (trace (snd (wait_for_mutation (Suc n) w)))
          = pacing (trace w)
            @ take (Suc (Suc m)) (concat (replicate (Suc n) [Query Wait_query, Sleep 1]))"
        by (simp add: wait_poll(2) [OF None False] del: wait_for_mutation.simps)
      with m show ?thesis
        by (intro exI [of _ "Suc (Suc m)"]) (simp del: wait_for_mutation.simps)
    qed
  qed
qed

lemma pending_at_mono: "a \<le> b \<Longrightarrow> pending_at b w \<le> pending_at a w"
proof -
  assume "a \<le> b"
  then have "filter (\<lambda>done_at. b < done_at) (mutations w)
      = filter (\<lambda>done_at. b < done_at) (filter (\<lambda>done_at. a < done_at) (mutations w))"
    by (auto intro: filter_cong)
  then have "pending_at b w
      = length (filter (\<lambda>done_at. b < done_at) (filter (\<lambda>done_at. a < done_at) (mutations w)))"
    by (simp only: pending_at_def)
  also have "\<dots> \<le> pending_at a w"
    unfolding pending_at_def by (rule length_filter_le)
  finally show ?thesis .
qed

text \<open>While a mutation stays pending, the loop runs to its end, and returns.\<close>

lemma wait_busy:
  assumes "outcomes w = []" and "0 < pending_at (clock w + 1001 * n) w"
  shows "fst (wait_for_mutation n w) = Inr ()
    \<and> trace (snd (wait_for_mutation n w)) = trace w @ concat (replicate n busy_round)"
  using assms
proof (induction n arbitrary: w)
  case 0
  then show ?case
    by (simp add: returns_def)
next
  case (Suc n)
  let ?w1 = "asleep 1 (polled w)"
  note o = outcome_at_exhausted [OF Suc.prems(1), of 0]
  from pending_at_mono [of "clock w" "clock w + 1001 * Suc n" w] Suc.prems(2)
  have p: "pending_at (clock w) w \<noteq> 0"
    by simp
  have "outcomes ?w1 = []"
    using Suc.prems(1) by simp
  moreover have "0 < pending_at (clock ?w1 + 1001 * n) ?w1"
  proof -
    have "clock ?w1 + 1001 * n = clock w + 1001 * Suc n"
      by simp
    with Suc.prems(2) show ?thesis
      by (simp only: pending_at_asleep polled_pending)
  qed
  ultimately have "fst (wait_for_mutation n ?w1) = Inr ()
      \<and> trace (snd (wait_for_mutation n ?w1)) = trace ?w1 @ concat (replicate n busy_round)"
    by (rule Suc.IH)
  then show ?case
    by (simp add: wait_poll(2) [OF o p] busy_round_def del: wait_for_mutation.simps)
qed


section \<open>Claims\<close>

text \<open>
  C2. Reconciliation raises if and only if the invariant fails. When the store answers
  the three calls of the validation step (the connection and its two queries), the step
  raises exactly when the invariant of the specification does not hold for the number of
  distinct source users of the date and the number of destination rows the deduplicated
  read shows, and what it raises is the validation failure. Whatever the environment
  does: when the invariant does not hold of the tables, the step raises; when the step
  returns, the invariant holds of the tables, which the step has left as they were, and
  the record it pushes carries their two counts. A run of the whole DAG that succeeds
  ends with tables of which the invariant holds, from the time of the validation's read
  on, with the source users it started with; so a run on whose tables the invariant is
  violated fails.
\<close>

theorem reconciliation_raises_iff:
  "(answered 3 w \<longrightarrow>
      (isl (fst (validate_results context w))
         \<longleftrightarrow> \<not> reconciliation_invariant (source_distinct_users (ds context) w)
               (dest_rows (ds context) (clock w + 2) w))
      \<and> (isl (fst (validate_results context w)) \<longrightarrow>
           fst (validate_results context w)
           = Inl (validation_failed (source_distinct_users (ds context) w)
                   (dest_rows (ds context) (clock w + 2) w))))
   \<and> (\<not> reconciliation_invariant (source_distinct_users (ds context) w)
          (dest_rows (ds context) (clock w + 2) w) \<longrightarrow>
        isl (fst (validate_results context w)))
   \<and> (\<forall>r w'. validate_results context w = (Inr r, w') \<longrightarrow>
         reconciliation_invariant (source_distinct_users (ds context) w')
           (dest_rows (ds context) (clock w + 2) w')
         \<and> source_distinct_users (ds context) w' = source_distinct_users (ds context) w
         \<and> dest_rows (ds context) (clock w + 2) w' = dest_rows (ds context) (clock w + 2) w
         \<and> fv_source_unique_users r = source_distinct_users (ds context) w'
         \<and> fv_destination_rows r = dest_rows (ds context) (clock w + 2) w'
         \<and> fv_validation_passed r \<and> final_validation (ti w') = Some r)
   \<and> (\<forall>report w'. gold_user_activity_daily context w = (Inr report, w') \<longrightarrow>
         (\<exists>r at. at \<le> clock w' \<and> final_validation (ti w') = Some r \<and> fv_validation_passed r
            \<and> fv_source_unique_users r = source_distinct_users (ds context) w'
            \<and> fv_destination_rows r = dest_rows (ds context) at w'
            \<and> source_distinct_users (ds context) w' = source_distinct_users (ds context) w
            \<and> (\<forall>now \<ge> at. reconciliation_invariant (source_distinct_users (ds context) w')
                              (dest_rows (ds context) now w'))))"
proof (intro conjI impI allI)
  assume a: "answered 3 w"
  show "isl (fst (validate_results context w))
         \<longleftrightarrow> \<not> reconciliation_invariant (source_distinct_users (ds context) w)
               (dest_rows (ds context) (clock w + 2) w)"
    by (simp add: validate_results_answered [OF a] Let_def)
  show "fst (validate_results context w)
           = Inl (validation_failed (source_distinct_users (ds context) w)
                   (dest_rows (ds context) (clock w + 2) w))"
    if "isl (fst (validate_results context w))"
    using that by (simp add: validate_results_answered [OF a] Let_def split: if_splits)
next
  assume broken: "\<not> reconciliation_invariant (source_distinct_users (ds context) w)
          (dest_rows (ds context) (clock w + 2) w)"
  show "isl (fst (validate_results context w))"
  proof (rule ccontr)
    assume "\<not> isl (fst (validate_results context w))"
    then obtain r where "fst (validate_results context w) = Inr r"
      by (cases "fst (validate_results context w)") simp_all
    then have "validate_results context w = (Inr r, snd (validate_results context w))"
      by (metis prod.collapse)
    from validate_results_Inr [OF this] broken show False
      by metis
  qed
next
  fix r w'
  assume run: "validate_results context w = (Inr r, w')"
  note t = validate_results_tables [OF run]
  from validate_results_Inr [OF run]
  have p: "fv_validation_passed r" and ti: "final_validation (ti w') = Some r"
    and s: "fv_source_unique_users r = source_distinct_users (ds context) w"
    and d: "fv_destination_rows r = dest_rows (ds context) (clock w + 2) w"
    and i: "reconciliation_invariant (fv_source_unique_users r) (fv_destination_rows r)"
    by blast+
  from i show "reconciliation_invariant (source_distinct_users (ds context) w')
           (dest_rows (ds context) (clock w + 2) w')"
    by (simp only: s d t)
  show "source_distinct_users (ds context) w' = source_distinct_users (ds context) w"
    by (rule t)
  show "dest_rows (ds context) (clock w + 2) w' = dest_rows (ds context) (clock w + 2) w"
    by (rule t)
  show "fv_source_unique_users r = source_distinct_users (ds context) w'"
    by (simp only: s t)
  show "fv_destination_rows r = dest_rows (ds context) (clock w + 2) w'"
    by (simp only: d t)
  show "fv_validation_passed r"
    by (rule p)
  show "final_validation (ti w') = Some r"
    by (rule ti)
next
  fix report w'
  assume "gold_user_activity_daily context w = (Inr report, w')"
  then show "\<exists>r at. at \<le> clock w' \<and> final_validation (ti w') = Some r \<and> fv_validation_passed r
            \<and> fv_source_unique_users r = source_distinct_users (ds context) w'
            \<and> fv_destination_rows r = dest_rows (ds context) at w'
            \<and> source_distinct_users (ds context) w' = source_distinct_users (ds context) w
            \<and> (\<forall>now \<ge> at. reconciliation_invariant (source_distinct_users (ds context) w')
                              (dest_rows (ds context) now w'))"
    by (rule run_invariant)
qed

theorem reconciliation_raises_iff_witness:
  "answered 3 ex_mismatch
   \<and> \<not> reconciliation_invariant (source_distinct_users (ds ex_context) ex_mismatch)
         (dest_rows (ds ex_context) (clock ex_mismatch + 2) ex_mismatch)
   \<and> fst (validate_results ex_context ex_mismatch) = Inl (validation_failed 0 1)
   \<and> (\<exists>r w'. validate_results ex_context ex_loaded = (Inr r, w')
        \<and> fv_source_unique_users r = 2 \<and> fv_destination_rows r = 2
        \<and> reconciliation_invariant (source_distinct_users (ds ex_context) w')
            (dest_rows (ds ex_context) (clock ex_loaded + 2) w'))
   \<and> (\<exists>report w'. gold_user_activity_daily ex_context ex_world = (Inr report, w')
        \<and> source_distinct_users (ds ex_context) w' = 2
        \<and> reconciliation_invariant (source_distinct_users (ds ex_context) w')
            (dest_rows (ds ex_context) (clock w') w'))"
proof -
  have differ: "\<not> reconciliation_invariant (source_distinct_users (ds ex_context) ex_mismatch)
         (dest_rows (ds ex_context) (clock ex_mismatch + 2) ex_mismatch)"
    by (simp add: ex_mismatch_counts reconciliation_invariant_def)
  with reconciliation_raises_iff [of ex_mismatch ex_context]
  have raised: "fst (validate_results ex_context ex_mismatch) = Inl (validation_failed 0 1)"
    by (simp add: ex_mismatch_counts)
  have "reconciliation_invariant (source_distinct_users (ds ex_context) ex_loaded)
         (dest_rows (ds ex_context) (clock ex_loaded + 2) ex_loaded)"
    by (simp add: ex_loaded_counts reconciliation_invariant_def)
  with reconciliation_raises_iff [of ex_loaded ex_context] ex_loaded_counts(1)
  have "\<not> isl (fst (validate_results ex_context ex_loaded))"
    by blast
  then obtain r where "fst (validate_results ex_context ex_loaded) = Inr r"
    by (cases "fst (validate_results ex_context ex_loaded)") simp_all
  then obtain w1 where step: "validate_results ex_context ex_loaded = (Inr r, w1)"
    by (metis prod.collapse)
  with reconciliation_raises_iff [of ex_loaded ex_context]
  have passed: "fv_source_unique_users r = 2 \<and> fv_destination_rows r = 2
        \<and> reconciliation_invariant (source_distinct_users (ds ex_context) w1)
            (dest_rows (ds ex_context) (clock ex_loaded + 2) w1)"
    by (simp add: ex_loaded_counts)
  obtain report w' where run: "gold_user_activity_daily ex_context ex_world = (Inr report, w')"
    using run_succeeds [of ex_world ex_context] ex_world_runs by blast
  have "source_distinct_users (ds ex_context) ex_world = 2"
    by (simp add: source_distinct_users_def ex_defs store_defs)
  with run reconciliation_raises_iff [of ex_world ex_context]
  have "source_distinct_users (ds ex_context) w' = 2
        \<and> reconciliation_invariant (source_distinct_users (ds ex_context) w')
            (dest_rows (ds ex_context) (clock w') w')"
    by auto
  with differ raised step passed run show ?thesis
    using ex_mismatch_counts(1) by blast
qed

text \<open>
  C4, as the claim states it, fails: on a destination that holds a row for a date without
  events the validation step raises the reconciliation mismatch, on a store that rejects
  the first query it raises the query failure, and the two exceptions are of one class,
  \<^verbatim>\<open>AirflowException\<close>.
\<close>

theorem failure_kinds_counterexample:
  "fst (validate_results ex_context ex_mismatch) = Inl (validation_failed 0 1)
   \<and> fst (validate_results ex_context ex_rejecting)
       = Inl (AirflowException ''Query execution failed: boom'')
   \<and> class_of (validation_failed 0 1)
       = class_of (AirflowException ''Query execution failed: boom'')"
  by (simp add: ex_mismatch_raises ex_rejecting_raises validation_failed_def)

text \<open>
  C4, amended. A failed connection, a statement the store rejects with a
  \<^verbatim>\<open>ClickHouseError\<close> and a reconciliation mismatch are all raised as
  \<^verbatim>\<open>AirflowException\<close>: the first by the connection helper and the second by both query
  helpers, whichever task calls them, the third by the validation step when its calls are
  answered and the invariant fails. Their messages start with
  \<^verbatim>\<open>ClickHouse connection failed: \<close>, \<^verbatim>\<open>Query execution failed: \<close> and
  \<^verbatim>\<open>Validation failed: \<close>.
\<close>

theorem failure_kinds_one_class:
  "(next_outcome w = Some e \<longrightarrow>
      fst (get_clickhouse_client w)
        = Inl (AirflowException (''ClickHouse connection failed: '' @ str_exn e)))
   \<and> (next_outcome w = Some (ClickHouseError m) \<longrightarrow>
        fst (execute_query c w) = Inl (AirflowException (''Query execution failed: '' @ m))
        \<and> fst (execute_query_with_result q w)
            = Inl (AirflowException (''Query execution failed: '' @ m)))
   \<and> (answered 3 w
        \<and> \<not> reconciliation_invariant (source_distinct_users (ds context) w)
              (dest_rows (ds context) (clock w + 2) w) \<longrightarrow>
        fst (validate_results context w)
          = Inl (AirflowException
                  (''Validation failed: Source had ''
                   @ str_nat (source_distinct_users (ds context) w)
                   @ '' users but destination has ''
                   @ str_nat (dest_rows (ds context) (clock w + 2) w) @ '' rows'')))"
proof (intro conjI impI)
  assume "next_outcome w = Some e"
  then show "fst (get_clickhouse_client w)
        = Inl (AirflowException (''ClickHouse connection failed: '' @ str_exn e))"
    by (simp add: get_clickhouse_client_eq)
next
  assume r: "next_outcome w = Some (ClickHouseError m)"
  then show "fst (execute_query c w) = Inl (AirflowException (''Query execution failed: '' @ m))"
    by (simp add: execute_query_eq wrapped_def Let_def)
  from r show "fst (execute_query_with_result q w)
            = Inl (AirflowException (''Query execution failed: '' @ m))"
    by (simp add: execute_query_with_result_eq wrapped_def Let_def)
next
  assume "answered 3 w
        \<and> \<not> reconciliation_invariant (source_distinct_users (ds context) w)
              (dest_rows (ds context) (clock w + 2) w)"
  then show "fst (validate_results context w)
          = Inl (AirflowException
                  (''Validation failed: Source had ''
                   @ str_nat (source_distinct_users (ds context) w)
                   @ '' users but destination has ''
                   @ str_nat (dest_rows (ds context) (clock w + 2) w) @ '' rows''))"
    by (simp add: validate_results_answered Let_def validation_failed_def)
qed

theorem failure_kinds_one_class_witness:
  "next_outcome (ex_rejecting\<lparr>outcomes := [Some (ClickHouseError ''boom'')]\<rparr>)
     = Some (ClickHouseError ''boom'')
   \<and> fst (get_clickhouse_client (ex_rejecting\<lparr>outcomes := [Some (ClickHouseError ''boom'')]\<rparr>))
       = Inl (AirflowException ''ClickHouse connection failed: boom'')
   \<and> fst (execute_query (optimize_query ''202401'')
            (ex_rejecting\<lparr>outcomes := [Some (ClickHouseError ''boom'')]\<rparr>))
       = Inl (AirflowException ''Query execution failed: boom'')
   \<and> answered 3 ex_mismatch
   \<and> \<not> reconciliation_invariant (source_distinct_users (ds ex_context) ex_mismatch)
         (dest_rows (ds ex_context) (clock ex_mismatch + 2) ex_mismatch)
   \<and> fst (validate_results ex_context ex_mismatch)
       = Inl (AirflowException
               ''Validation failed: Source had 0 users but destination has 1 rows'')"
proof -
  let ?w = "ex_rejecting\<lparr>outcomes := [Some (ClickHouseError ''boom'')]\<rparr>"
  have n: "next_outcome ?w = Some (ClickHouseError ''boom'')"
    by (simp add: next_outcome_def)
  note a = failure_kinds_one_class
    [of ?w "ClickHouseError ''boom''" "''boom''" "optimize_query ''202401''"
        "count_query ex_date" ex_context]
  note b = failure_kinds_one_class
    [of ex_mismatch "ClickHouseError ''boom''" "''boom''" "optimize_query ''202401''"
        "count_query ex_date" ex_context]
  have i: "\<not> reconciliation_invariant (source_distinct_users (ds ex_context) ex_mismatch)
         (dest_rows (ds ex_context) (clock ex_mismatch + 2) ex_mismatch)"
    by (simp add: ex_mismatch_counts reconciliation_invariant_def)
  from a n have 1: "fst (get_clickhouse_client ?w)
       = Inl (AirflowException ''ClickHouse connection failed: boom'')"
    and 2: "fst (execute_query (optimize_query ''202401'') ?w)
       = Inl (AirflowException ''Query execution failed: boom'')"
    by simp_all
  from b i ex_mismatch_counts(1) have 3: "fst (validate_results ex_context ex_mismatch)
       = Inl (AirflowException
               ''Validation failed: Source had 0 users but destination has 1 rows'')"
    by (simp add: ex_mismatch_counts str_nat.simps digit_def)
  from n 1 2 3 i ex_mismatch_counts(1) show ?thesis
    by blast
qed

text \<open>
  C8, as stated, fails for the record of the cleanup step. With no upstream record at
  all, the line of the deleted rows shows the count \<open>0\<close> and not the marker \<open>N/A\<close>: the
  report is the very text compiled when the cleanup step has recorded that it deleted
  zero rows.
\<close>

theorem report_absent_deletion_counterexample:
  "deleted_rows (ti ex_world) = None
   \<and> fst (generate_report ex_context ex_world)
     = Inr (report_text
         \<lparr>rf_execution_date = ''2024-01-15'', rf_run_id = ''scheduled__2024-01-16'',
          rf_events_found = ''N/A'', rf_unique_users = ''N/A'',
          rf_min_timestamp = ''N/A'', rf_max_timestamp = ''N/A'',
          rf_rows_deleted = ''0'',
          rf_rows_inserted = ''N/A'', rf_total_events = ''N/A'',
          rf_aggregated_users = ''N/A'', rf_validation_passed = ''N/A''\<rparr>)
   \<and> fst (generate_report ex_context ex_world)
     = fst (generate_report ex_context (ex_world\<lparr>ti := no_xcom\<lparr>deleted_rows := Some 0\<rparr>\<rparr>))"
  by (simp add: generate_report_def task_simps get_def ex_defs no_xcom_def str_date_def
      zero_pad_def str_nat.simps digit_def)

text \<open>
  C8, amended. The report compiler never raises: for every combination of present and
  absent upstream records it returns the report, which is the template filled with
  eleven fields, and all it does besides is to log that report. A missing record of the
  source validation, of the aggregation or of the final validation shows \<open>N/A\<close> in each
  of its fields; a missing record of the cleanup step shows the count \<open>0\<close>.
\<close>

theorem report_total:
  "\<exists>f. generate_report context w
         = (Inr (report_text f), logged [Log INFO ''{}'' [Str (report_text f)]] w)
     \<and> (validation_result (ti w) = None \<longrightarrow>
          rf_events_found f = ''N/A'' \<and> rf_unique_users f = ''N/A''
          \<and> rf_min_timestamp f = ''N/A'' \<and> rf_max_timestamp f = ''N/A'')
     \<and> (aggregation_result (ti w) = None \<longrightarrow>
          rf_rows_inserted f = ''N/A'' \<and> rf_total_events f = ''N/A''
          \<and> rf_aggregated_users f = ''N/A'')
     \<and> (final_validation (ti w) = None \<longrightarrow> rf_validation_passed f = ''N/A'')
     \<and> (deleted_rows (ti w) = None \<longrightarrow> rf_rows_deleted f = ''0'')"
proof -
  let ?f = "\<lparr>rf_execution_date = str_date (ds context),
      rf_run_id = run_id context,
      rf_events_found = get (validation_result (ti w)) (\<lambda>v. str_nat (sv_event_count v)) ''N/A'',
      rf_unique_users = get (validation_result (ti w)) (\<lambda>v. str_nat (sv_unique_users v)) ''N/A'',
      rf_min_timestamp =
        get (validation_result (ti w)) (\<lambda>v. str_optional (sv_min_timestamp v)) ''N/A'',
      rf_max_timestamp =
        get (validation_result (ti w)) (\<lambda>v. str_optional (sv_max_timestamp v)) ''N/A'',
      rf_rows_deleted = str_nat (case deleted_rows (ti w) of None \<Rightarrow> 0 | Some n \<Rightarrow> n),
      rf_rows_inserted =
        get (aggregation_result (ti w)) (\<lambda>a. str_nat (ag_rows_inserted a)) ''N/A'',
      rf_total_events =
        get (aggregation_result (ti w)) (\<lambda>a. str_nat (ag_total_events_aggregated a)) ''N/A'',
      rf_aggregated_users =
        get (aggregation_result (ti w)) (\<lambda>a. str_nat (ag_unique_users a)) ''N/A'',
      rf_validation_passed =
        get (final_validation (ti w)) (\<lambda>f. str_bool (fv_validation_passed f)) ''N/A''\<rparr>"
  have "generate_report context w
         = (Inr (report_text ?f), logged [Log INFO ''{}'' [Str (report_text ?f)]] w)"
    by (simp add: generate_report_def task_simps)
  moreover have "str_nat 0 = ''0''"
    by (simp add: str_nat.simps digit_def)
  ultimately show ?thesis
    by (intro exI [of _ ?f]) (simp add: get_def)
qed

theorem report_total_witness:
  "validation_result (ti ex_world) = None \<and> aggregation_result (ti ex_world) = None
   \<and> final_validation (ti ex_world) = None \<and> deleted_rows (ti ex_world) = None
   \<and> (\<exists>f. fst (generate_report ex_context ex_world) = Inr (report_text f)
        \<and> rf_events_found f = ''N/A'' \<and> rf_unique_users f = ''N/A''
        \<and> rf_min_timestamp f = ''N/A'' \<and> rf_max_timestamp f = ''N/A''
        \<and> rf_rows_inserted f = ''N/A'' \<and> rf_total_events f = ''N/A''
        \<and> rf_aggregated_users f = ''N/A'' \<and> rf_validation_passed f = ''N/A''
        \<and> rf_rows_deleted f = ''0'')"
proof -
  have absent: "validation_result (ti ex_world) = None" "aggregation_result (ti ex_world) = None"
    "final_validation (ti ex_world) = None" "deleted_rows (ti ex_world) = None"
    by (simp_all add: ex_defs no_xcom_def)
  from report_total [of ex_context ex_world] obtain f where
    "generate_report ex_context ex_world
         = (Inr (report_text f), logged [Log INFO ''{}'' [Str (report_text f)]] ex_world)"
    "rf_events_found f = ''N/A''" "rf_unique_users f = ''N/A''"
    "rf_min_timestamp f = ''N/A''" "rf_max_timestamp f = ''N/A''"
    "rf_rows_inserted f = ''N/A''" "rf_total_events f = ''N/A''"
    "rf_aggregated_users f = ''N/A''" "rf_validation_passed f = ''N/A''"
    "rf_rows_deleted f = ''0''"
    using absent by auto
  then have "fst (generate_report ex_context ex_world) = Inr (report_text f)
        \<and> rf_events_found f = ''N/A'' \<and> rf_unique_users f = ''N/A''
        \<and> rf_min_timestamp f = ''N/A'' \<and> rf_max_timestamp f = ''N/A''
        \<and> rf_rows_inserted f = ''N/A'' \<and> rf_total_events f = ''N/A''
        \<and> rf_aggregated_users f = ''N/A'' \<and> rf_validation_passed f = ''N/A''
        \<and> rf_rows_deleted f = ''0''"
    by simp
  then show ?thesis
    using absent by blast
qed

text \<open>
  C6. A failed compaction request is logged and otherwise ignored. When the connection
  of the optimize step is made and the store (or the driver) fails the compaction
  request with any exception \<open>e\<close>, the step still succeeds; it has logged one more
  warning, which carries the exception; the destination table and the two source tables
  are what they were; and the DAG goes on with the validation and report steps from the
  state the step left, so that the run succeeds whenever the store answers the
  validation and its invariant holds.
\<close>

theorem optimize_failure_not_fatal:
  assumes "outcome_at 0 w = None" and "outcome_at 1 w = Some e"
  shows "fst (optimize_table context w) = Inr ()
    \<and> warnings (trace (snd (optimize_table context w)))
        = warnings (trace w) @ [(''Optimization warning (non-fatal): {}'', [Exn (wrapped e)])]
    \<and> gold_user_activity (snd (optimize_table context w)) = gold_user_activity w
    \<and> same_tables w (snd (optimize_table context w))
    \<and> andThen (optimize_table context)
          (\<lambda>_. andThen (validate_results context) (\<lambda>_. generate_report context)) w
        = andThen (validate_results context) (\<lambda>_. generate_report context)
            (snd (optimize_table context w))
    \<and> (answered 3 (snd (optimize_table context w))
         \<and> reconciliation_invariant
             (source_distinct_users (ds context) (snd (optimize_table context w)))
             (dest_rows (ds context) (clock (snd (optimize_table context w)) + 2)
                (snd (optimize_table context w)))
       \<longrightarrow> (\<exists>report.
             fst (andThen (optimize_table context)
                   (\<lambda>_. andThen (validate_results context) (\<lambda>_. generate_report context)) w)
             = Inr report))"
proof -
  let ?w' = "snd (optimize_table context w)"
  let ?rest = "andThen (validate_results context) (\<lambda>_. generate_report context)"
  have ok: "fst (optimize_table context w) = Inr ()"
    using assms by (simp add: optimize_table_def task_simps try_except_def)
  have tr: "trace ?w' = trace w
      @ [Log INFO ''Optimizing gold_user_activity table for date: {}'' [Day (ds context)],
         Connect CLICKHOUSE_CONFIG,
         Log INFO ''Successfully connected to ClickHouse'' [],
         Log INFO ''Executing query: {}...'' [Stmt (Optimize_query (strftime_Ym (ds context)))],
         Command (Optimize_query (strftime_Ym (ds context)))]
      @ wrap_log e
      @ [Log WARNING ''Optimization warning (non-fatal): {}'' [Exn (wrapped e)], Close]"
    using assms by (simp add: optimize_table_def task_simps try_except_def)
  have "warnings (wrap_log e) = []"
    by (cases e) (simp_all add: wrap_log_def warnings_def)
  then have wa: "warnings (trace ?w')
        = warnings (trace w) @ [(''Optimization warning (non-fatal): {}'', [Exn (wrapped e)])]"
    unfolding tr by (simp add: warnings_def)
  have gold: "gold_user_activity ?w' = gold_user_activity w"
    using assms by (simp add: optimize_table_def task_simps try_except_def)
  have src: "same_tables w ?w'"
    using keepsD [OF same_tables_tasks(4), of "context" w] by (metis prod.collapse)
  have go: "andThen (optimize_table context) (\<lambda>_. ?rest) w = ?rest ?w'"
    by (simp add: andThen_proj [of "optimize_table context"] ok)
  have "\<exists>report. fst (andThen (optimize_table context) (\<lambda>_. ?rest) w) = Inr report"
    if a: "answered 3 ?w'"
      and i: "reconciliation_invariant (source_distinct_users (ds context) ?w')
               (dest_rows (ds context) (clock ?w' + 2) ?w')"
  proof -
    from validate_results_answered [OF a, of "context"] i
    obtain r where "fst (validate_results context ?w') = Inr r"
      by (simp add: Let_def)
    then have "?rest ?w' = generate_report context (snd (validate_results context ?w'))"
      by (simp add: andThen_proj [of "validate_results context"])
    with generate_report_returns [of "context" "snd (validate_results context ?w')"] go
    show ?thesis
      by simp
  qed
  with ok wa gold src go show ?thesis
    by blast
qed

theorem optimize_failure_not_fatal_witness:
  "outcome_at 0 ex_compacting = None
   \<and> outcome_at 1 ex_compacting = Some (ClickHouseError ''boom'')
   \<and> fst (optimize_table ex_context ex_compacting) = Inr ()
   \<and> gold_user_activity (snd (optimize_table ex_context ex_compacting))
     = gold_user_activity ex_compacting
   \<and> (\<exists>report.
         fst (andThen (optimize_table ex_context)
               (\<lambda>_. andThen (validate_results ex_context) (\<lambda>_. generate_report ex_context))
               ex_compacting)
         = Inr report)"
proof -
  let ?w' = "snd (optimize_table ex_context ex_compacting)"
  note facts = optimize_failure_not_fatal [OF ex_compacting_outcomes, of ex_context]
  from facts have gold: "gold_user_activity ?w' = gold_user_activity ex_compacting"
    and src: "same_tables ex_compacting ?w'"
    by simp_all
  have "outcomes ?w' = []"
    by (simp add: optimize_table_outcomes ex_compacting_outcomes) (simp add: ex_compacting_def)
  then have a: "answered 3 ?w'"
    by (rule answered_exhausted)
  from src have "source_distinct_users (ds ex_context) ?w' = 2"
    by (simp add: source_distinct_users_def same_tables_def
        ex_compacting_counts(1) [unfolded source_distinct_users_def])
  moreover have "dest_rows (ds ex_context) (clock ?w' + 2) ?w' = 2"
    by (simp only: dest_rows_def gold ex_compacting_counts(2))
  ultimately have "reconciliation_invariant (source_distinct_users (ds ex_context) ?w')
      (dest_rows (ds ex_context) (clock ?w' + 2) ?w')"
    by (simp add: reconciliation_invariant_def)
  with facts a ex_compacting_outcomes show ?thesis
    by blast
qed

text \<open>
  C10. A user with an event on the date and no row in the user dimension still gets an
  aggregate row, with empty display attributes. The compute step does not fail for the
  missing dimension row: it returns whenever the store answers its three calls. When it
  returns, the rows it has appended to the destination contain a row of the date for
  that user, whose \<open>user_full_name\<close> and \<open>user_email\<close> are the empty string and whose
  \<open>event_count\<close> is the number of the user's events of the date.
\<close>

theorem missing_dimension_defaults:
  assumes "u \<in> se_user_id ` set (events_on (ds context) (silver_events w))"
    and "dimension_rows u w = []"
  shows "(answered 3 w \<longrightarrow> (\<exists>r. fst (compute_aggregations context w) = Inr r))
    \<and> (\<forall>r w'. compute_aggregations context w = (Inr r, w') \<longrightarrow>
          (\<exists>new row. gold_user_activity w' = gold_user_activity w @ map (\<lambda>r. (r, None)) new
             \<and> row \<in> set new \<and> activity_date row = ds context \<and> user_id row = u
             \<and> user_full_name row = '''' \<and> user_email row = ''''
             \<and> event_count row = length (events_of u (ds context) w)))"
proof (intro conjI impI allI)
  assume "answered 3 w"
  then show "\<exists>r. fst (compute_aggregations context w) = Inr r"
    by (rule compute_aggregations_answered)
next
  fix r w'
  assume run: "compute_aggregations context w = (Inr r, w')"
  let ?d = "ds context"
  let ?new = "insert_select ?d (silver_events w) (silver_users w) (Suc (clock w))"
  let ?es = "events_of u ?d w"
  from assms(1) have "u \<in> set (map user_id ?new)"
    by (simp only: insert_select_users)
  then obtain row where row: "row \<in> set ?new" and u: "user_id row = u"
    by auto
  from assms(2) have "\<forall>se \<in> set ?es. \<forall>su \<in> set (silver_users w). su_user_id su \<noteq> se_user_id se"
    by (auto simp: dimension_rows_def events_of_def filter_empty_conv)
  then have join: "left_join ?es (silver_users w) = map (\<lambda>se. (se, no_match)) ?es"
    by (rule left_join_unmatched)
  from insert_select_row [OF row] u join
  have eq: "row = aggregate (Suc (clock w)) (?d, u) (map (\<lambda>se. (se, no_match)) ?es)"
    by (simp add: events_of_def)
  have "user_full_name row = ''''" "user_email row = ''''" "event_count row = length ?es"
    by (simp_all add: eq aggregate_unmatched)
  with compute_aggregations_Inr(1) [OF run] row u insert_select_stamps(1) [OF row]
  show "\<exists>new row. gold_user_activity w' = gold_user_activity w @ map (\<lambda>r. (r, None)) new
             \<and> row \<in> set new \<and> activity_date row = ds context \<and> user_id row = u
             \<and> user_full_name row = '''' \<and> user_email row = ''''
             \<and> event_count row = length (events_of u (ds context) w)"
    by blast
qed

theorem missing_dimension_defaults_witness:
  "2 \<in> se_user_id ` set (events_on (ds ex_context) (silver_events ex_world))
   \<and> dimension_rows 2 ex_world = [] \<and> answered 3 ex_world
   \<and> (\<exists>r w' row. compute_aggregations ex_context ex_world = (Inr r, w')
        \<and> (row, None) \<in> set (gold_user_activity w') \<and> user_id row = 2
        \<and> user_full_name row = '''' \<and> user_email row = '''')"
proof -
  have u: "2 \<in> se_user_id ` set (events_on (ds ex_context) (silver_events ex_world))"
    and d: "dimension_rows 2 ex_world = []" and a: "answered 3 ex_world"
    by (simp_all add: dimension_rows_def answered_def ex_defs store_defs)
  note facts = missing_dimension_defaults [OF u d]
  from facts a obtain r where "fst (compute_aggregations ex_context ex_world) = Inr r"
    by blast
  then obtain w' where run: "compute_aggregations ex_context ex_world = (Inr r, w')"
    by (metis prod.collapse)
  with facts obtain new row where
    "gold_user_activity w' = gold_user_activity ex_world @ map (\<lambda>r. (r, None)) new"
    "row \<in> set new" "user_id row = 2" "user_full_name row = ''''" "user_email row = ''''"
    by blast
  then have "(row, None) \<in> set (gold_user_activity w') \<and> user_id row = 2
        \<and> user_full_name row = '''' \<and> user_email row = ''''"
    by simp
  with run u d a show ?thesis
    by blast
qed

text \<open>
  C9, as stated, fails in its conclusion. A row that survived an incomplete delete and
  whose user has no event on the date any more is out-ranked by no row of the new
  generation, since the new generation has no row for its key: the deduplicated read
  still shows it, beside the two new rows.
\<close>

theorem version_stamp_counterexample:
  "stamped_in_past ex_orphan
   \<and> \<not> isl (fst (compute_aggregations ex_context ex_orphan))
   \<and> map user_id
       (on_date ex_date
          (final (readable (clock (snd (compute_aggregations ex_context ex_orphan)))
                    (gold_user_activity (snd (compute_aggregations ex_context ex_orphan))))))
     = [7, 1, 2]"
proof -
  let ?w' = "snd (compute_aggregations ex_context ex_orphan)"
  let ?new = "insert_select ex_date (silver_events ex_world) (silver_users ex_world) 101"
  have "answered 3 ex_orphan"
    by (simp add: answered_def ex_orphan_def ex_defs)
  then obtain r where ok: "fst (compute_aggregations ex_context ex_orphan) = Inr r"
    using compute_aggregations_answered by blast
  then have run: "compute_aggregations ex_context ex_orphan = (Inr r, ?w')"
    by (metis prod.collapse)
  have "gold_user_activity ?w'
      = [(ex_row ex_date 7 50, Some 100000)] @ map (\<lambda>r. (r, None)) ?new"
    using compute_aggregations_Inr(1) [OF run] by (simp add: ex_orphan_def ex_defs)
  moreover have "clock ?w' = 103"
    using compute_aggregations_clock [OF run] by (simp add: ex_orphan_def ex_defs)
  ultimately
  have "on_date ex_date (final (readable (clock ?w') (gold_user_activity ?w')))
      = on_date ex_date (final (ex_row ex_date 7 50 # ?new))"
    by (simp add: readable_def comp_def)
  also have "final (ex_row ex_date 7 50 # ?new) = ex_row ex_date 7 50 # ?new"
    using ex_insert [of 101] insert_select_distinct_users [of ex_date _ _ 101]
      insert_select_stamps(1) [of _ ex_date _ _ 101]
    by (intro final_distinct_keys) (auto simp: sorting_key_def ex_row_def)
  also have "on_date ex_date (ex_row ex_date 7 50 # ?new) = ex_row ex_date 7 50 # ?new"
    by (simp add: on_date_def insert_select_on_date [unfolded on_date_def] ex_row_def)
  finally have "map user_id
      (on_date ex_date (final (readable (clock ?w') (gold_user_activity ?w'))))
      = map user_id (ex_row ex_date 7 50 # ?new)"
    by (rule arg_cong)
  also have "\<dots> = [7, 1, 2]"
    by (simp add: ex_insert) (simp add: ex_row_def)
  finally show ?thesis
    using ex_orphan_stamped by (simp add: ok)
qed

text \<open>
  C9, amended. In a store whose rows were all stamped before its present time (which
  every task of the DAG keeps so), the compute step that returns has appended rows that
  all carry the time of the insert, both as computation timestamp and as version stamp;
  this stamp is strictly greater than the version stamp of every row stored before, so
  also of every row that survived an incomplete delete; and at any time, for every key
  the new generation has a row for, the row the deduplicated read shows is the one of
  the new generation.
\<close>

theorem version_stamp_outranks:
  assumes "stamped_in_past w" and "compute_aggregations context w = (Inr r, w')"
  shows "\<exists>now new. clock w < now \<and> now < clock w'
    \<and> gold_user_activity w' = gold_user_activity w @ map (\<lambda>r. (r, None)) new
    \<and> (\<forall>row \<in> set new. computed_at row = now \<and> version row = now
          \<and> (\<forall>old \<in> set (gold_user_activity w). version (fst old) < version row))
    \<and> (\<forall>at. \<forall>seen \<in> set (final (readable at (gold_user_activity w'))).
          sorting_key seen \<in> sorting_key ` set new \<longrightarrow> seen \<in> set new)
    \<and> stamped_in_past w'"
proof -
  let ?now = "Suc (clock w)"
  let ?new = "insert_select (ds context) (silver_events w) (silver_users w) ?now"
  note run = compute_aggregations_Inr [OF assms(2)]
  have stamps: "computed_at row = ?now \<and> version row = ?now
      \<and> (\<forall>old \<in> set (gold_user_activity w). version (fst old) < version row)"
    if "row \<in> set ?new" for row
  proof -
    from assms(1) have "\<forall>old \<in> set (gold_user_activity w). version (fst old) < ?now"
      by (auto simp: stamped_in_past_def list_all_iff less_Suc_eq)
    with insert_select_stamps(2,3) [OF that] show ?thesis
      by simp
  qed
  have read: "seen \<in> set ?new"
    if "seen \<in> set (final (readable at (gold_user_activity w')))"
      and "sorting_key seen \<in> sorting_key ` set ?new" for at seen
  proof -
    from that(1) have shown: "seen \<in> set (final (readable at (gold_user_activity w) @ ?new))"
      by (simp add: run(1))
    have "\<forall>a \<in> set (readable at (gold_user_activity w)). \<forall>b \<in> set ?new.
        version a < version b"
      using stamps readable_stored [of at "gold_user_activity w"] by fastforce
    with shown that(2) show ?thesis
      by (rule final_new_generation)
  qed
  have "stamped_in_past w'"
    using keepsD [OF stays_in_past_tasks(3) assms(2)] assms(1)
    by (simp add: stays_in_past_def)
  with run(1,2) stamps read show ?thesis
    by (intro exI [of _ ?now] exI [of _ ?new]) blast
qed

theorem version_stamp_outranks_witness:
  "stamped_in_past ex_stale
   \<and> (\<exists>r w' now new. compute_aggregations ex_context ex_stale = (Inr r, w')
        \<and> gold_user_activity w'
          = [(ex_row ex_date 1 50, Some 100000)] @ map (\<lambda>r. (r, None)) new
        \<and> (\<forall>row \<in> set new. version row = now \<and> 50 < version row)
        \<and> (\<forall>seen \<in> set (final (readable (clock w') (gold_user_activity w'))).
              sorting_key seen \<in> sorting_key ` set new \<longrightarrow> seen \<in> set new)
        \<and> stamped_in_past w')"
proof -
  have "answered 3 ex_stale"
    by (simp add: answered_def ex_stale_def ex_defs)
  then obtain r where "fst (compute_aggregations ex_context ex_stale) = Inr r"
    using compute_aggregations_answered by blast
  then obtain w' where run: "compute_aggregations ex_context ex_stale = (Inr r, w')"
    by (metis prod.collapse)
  from version_stamp_outranks [OF ex_stale_stamped run] obtain now new where
    g: "gold_user_activity w' = gold_user_activity ex_stale @ map (\<lambda>r. (r, None)) new"
    and s: "\<forall>row \<in> set new. computed_at row = now \<and> version row = now
          \<and> (\<forall>old \<in> set (gold_user_activity ex_stale). version (fst old) < version row)"
    and f: "\<forall>at. \<forall>seen \<in> set (final (readable at (gold_user_activity w'))).
          sorting_key seen \<in> sorting_key ` set new \<longrightarrow> seen \<in> set new"
    and p: "stamped_in_past w'"
    by blast
  have old: "gold_user_activity ex_stale = [(ex_row ex_date 1 50, Some 100000)]"
    by (simp add: ex_stale_def ex_defs)
  from s have "\<forall>row \<in> set new. version row = now \<and> 50 < version row"
    by (auto simp: old ex_row_def)
  with g f p run ex_stale_stamped show ?thesis
    unfolding old by blast
qed



end
